theory Spec2Isabelle
  imports Complex_Main
begin

section \<open>Exceptions\<close>

text \<open>
  Both services signal failure by raising. An \<open>HTTPException\<close> carries the status code
  that the client sees; its message, an f-string in the source, is kept as a constructor
  with the interpolated values as arguments. Any other exception (a subprocess timeout,
  an \<open>OSError\<close>, a failure inside the speech model) is \<open>Exception\<close> with its text.
\<close>

datatype detail =
    AudioDownloadFailed string
  | NoAudioFileFound string
  | AudioTooSmall nat
  | AudioTooLarge nat nat
  | InvalidVideoId
  | GpuBusy
  | SupabaseNotConfigured
  | EmptyTextsList
  | MaxTextsPerRequest
  | Str string

datatype exn = HTTPException nat detail | Exception string

section \<open>whisperx-service.py: audio download\<close>

definition MAX_AUDIO_BYTES :: nat where
  "MAX_AUDIO_BYTES = 1500000000"

text \<open>
  What one run of the \<open>yt_dlp\<close> subprocess leaves behind: whether
  \<open>subprocess.run\<close> hit its timeout (it then raises \<open>TimeoutExpired\<close>), the return
  code, the captured output, and the result of \<open>glob.glob(tmpdir/audio.*)\<close> as the
  matching paths in the order \<open>glob\<close> lists them, each with its \<open>os.path.getsize\<close>.
\<close>

record ytdlp_run =
  timed_out :: bool
  returncode :: int
  stderr :: string
  stdout :: string
  files :: "(string \<times> nat) list"

definition download_audio :: "ytdlp_run \<Rightarrow> exn + string" where
  "download_audio r =
     (if timed_out r then Inl (Exception ''TimeoutExpired'')
      else if returncode r \<noteq> 0
        then Inl (HTTPException 502 (AudioDownloadFailed (take 300 (stderr r))))
      else (case files r of
          [] \<Rightarrow> Inl (HTTPException 502 (NoAudioFileFound (take 200 (stdout r))))
        | (audio_path, fsize) # _ \<Rightarrow>
            if fsize < 1000 then Inl (HTTPException 502 (AudioTooSmall fsize))
            else if fsize > MAX_AUDIO_BYTES
              then Inl (HTTPException 413 (AudioTooLarge fsize MAX_AUDIO_BYTES))
            else Inr audio_path))"

text \<open>A run of the subprocess that exits with code 0 and leaves one file of the given size.\<close>

definition downloaded :: "string \<Rightarrow> nat \<Rightarrow> ytdlp_run" where
  "downloaded p n =
     \<lparr>timed_out = False, returncode = 0, stderr = [], stdout = [], files = [(p, n)]\<rparr>"

section \<open>whisperx-service.py: segments\<close>

text \<open>
  A segment and a word as the speech model yields them; a float is read as the real
  number it denotes. \<open>s_words\<close> is \<open>[]\<close> where the source has \<open>None\<close> or an empty list
  (both are falsy).
\<close>

record Word =
  w_word :: string
  w_start :: real

record Segment =
  s_text :: string
  s_start :: real
  s_end :: real
  s_words :: "Word list"

text \<open>The dictionary built by \<open>seg_to_dict\<close>; the key \<open>words\<close> may be missing.\<close>

record seg =
  seg_text :: string
  offset :: real
  duration :: real
  seg_words :: "(string \<times> int) list option"

text \<open>\<open>str.strip()\<close> on the ASCII whitespace characters.\<close>

definition isspace :: "char \<Rightarrow> bool" where
  "isspace c = (c \<in> set [CHR '' '', CHR 0x09, CHR 0x0A, CHR 0x0B, CHR 0x0C, CHR 0x0D,
                          CHR 0x1C, CHR 0x1D, CHR 0x1E, CHR 0x1F])"

definition strip :: "string \<Rightarrow> string" where
  "strip s = rev (dropWhile isspace (rev (dropWhile isspace s)))"

text \<open>
  Python floats are binary64, and an arithmetic operation on floats is the exact
  operation followed by \<open>fl\<close>, the rounding to the nearest float with a tie going to the
  even significand. A float has 53 significant bits: around \<open>x\<close> the floats are \<open>ulp x\<close>
  apart, the spacing being that of the binary exponent of \<open>x\<close> and, below \<open>2^-1022\<close>, that
  of the subnormal range. Overflow to infinity and NaN are not modelled: the values
  stay below the largest float.
\<close>

definition round_half_even :: "real \<Rightarrow> int" where
  "round_half_even x =
     (let f = \<lfloor>x\<rfloor>; d = x - of_int f
      in if d < 1 / 2 then f else if d > 1 / 2 then f + 1
         else if even f then f else f + 1)"

definition pow2 :: "int \<Rightarrow> real" where
  "pow2 e = (if 0 \<le> e then 2 ^ nat e else 1 / 2 ^ nat (- e))"

definition exponent :: "real \<Rightarrow> int" where
  "exponent x = max \<lfloor>log 2 \<bar>x\<bar>\<rfloor> (- 1022)"

definition ulp :: "real \<Rightarrow> real" where
  "ulp x = pow2 (exponent x - 52)"

definition fl :: "real \<Rightarrow> real" where
  "fl x = (if x = 0 then 0
          else sgn x * (of_int (round_half_even (\<bar>x\<bar> / ulp x)) * ulp x))"

text \<open>
  \<open>round(x, n)\<close> rounds the exact value of the float \<open>x\<close> to \<open>n\<close> decimals, a tie
  going to the even neighbour, and returns the float nearest to that decimal;
  \<open>int(x)\<close> on a float truncates towards zero.
\<close>

definition py_round :: "real \<Rightarrow> nat \<Rightarrow> real" where
  "py_round x ndigits = fl (of_int (round_half_even (x * 10 ^ ndigits)) / 10 ^ ndigits)"

definition py_int :: "real \<Rightarrow> int" where
  "py_int x = (if 0 \<le> x then \<lfloor>x\<rfloor> else \<lceil>x\<rceil>)"

definition seg_to_dict :: "Segment \<Rightarrow> seg" where
  "seg_to_dict s =
     \<lparr>seg_text = strip (s_text s),
      offset = py_round (s_start s) 3,
      duration = py_round (fl (s_end s - s_start s)) 3,
      seg_words =
        (if s_words s \<noteq> []
         then Some (map (\<lambda>w. (strip (w_word w), py_int (fl (w_start w * 1000))))
                        (filter (\<lambda>w. strip (w_word w) \<noteq> []) (s_words s)))
         else None)\<rparr>"

section \<open>whisperx-service.py: calls to the store\<close>

text \<open>
  The module-level credentials, read once from the environment. Python's \<open>not v\<close> holds
  for \<open>None\<close> and for the empty string.
\<close>

record config =
  SUPABASE_URL :: "string option"
  SUPABASE_KEY :: "string option"

definition unset :: "string option \<Rightarrow> bool" where
  "unset v = (v = None \<or> v = Some [])"

text \<open>
  The requests one job sends, in order. An \<open>Upsert\<close> is the POST of
  \<open>supabase_upsert_segments\<close>: the place it was called from (inside the loop or after
  it), the video id, the segments, the computed \<open>duration_seconds\<close>, and whether
  \<open>urlopen\<close> returned. A \<open>Heartbeat\<close> is the POST of \<open>supabase_heartbeat\<close> with the
  parameters it put into the request: job id, worker id, status, progress, segments written.
\<close>

datatype site = Periodic | Final

datatype call =
    Upsert site string "seg list" real bool
  | Heartbeat string string "string option" "int option" "nat option"

fun is_upsert :: "call \<Rightarrow> bool" where
  "is_upsert (Upsert k v segs d ok) = True"
| "is_upsert (Heartbeat j w s p n) = False"

text \<open>
  \<open>urlopen_ok i\<close> tells whether the \<open>i\<close>-th upsert of the job (counted from 0) reaches
  the store; otherwise \<open>urlopen\<close> raises. Without credentials the function raises before
  it sends anything. The \<open>source\<close> argument is \<open>"whisperx"\<close> at both call sites and is
  left out.
\<close>

definition supabase_upsert_segments ::
  "config \<Rightarrow> (nat \<Rightarrow> bool) \<Rightarrow> site \<Rightarrow> string \<Rightarrow> seg list \<Rightarrow> call list \<Rightarrow> (exn + unit) \<times> call list" where
  "supabase_upsert_segments cfg urlopen_ok k video_id segments sent =
     (if unset (SUPABASE_URL cfg) \<or> unset (SUPABASE_KEY cfg)
      then (Inl (Exception ''Supabase env vars not configured''), sent)
      else
        let duration_seconds =
              (if segments = [] then 0
               else fl (offset (last segments) + duration (last segments)));
            ok = urlopen_ok (length (filter is_upsert sent));
            sent' = sent @ [Upsert k video_id segments (py_round duration_seconds 1) ok]
        in if ok then (Inr (), sent') else (Inl (Exception ''URLError''), sent'))"

text \<open>
  The heartbeat catches the failure of its own \<open>urlopen\<close>, so it never raises; an empty
  status is not put into the request. A configured \<open>SUPABASE_URL\<close> is taken to be a
  well-formed \<open>http\<close> or \<open>https\<close> address, so that building the request object, which
  both functions do outside any \<open>try\<close>, does not raise.
\<close>

definition supabase_heartbeat ::
  "config \<Rightarrow> string \<Rightarrow> string \<Rightarrow> string option \<Rightarrow> int option \<Rightarrow> nat option \<Rightarrow> call list \<Rightarrow> call list" where
  "supabase_heartbeat cfg job_id worker_id status progress_pct segments_written sent =
     (if unset (SUPABASE_URL cfg) \<or> unset (SUPABASE_KEY cfg) then sent
      else sent @ [Heartbeat job_id worker_id
                     (if status = Some [] then None else status)
                     progress_pct segments_written])"

section \<open>whisperx-service.py: the progressive flush loop\<close>

text \<open>
  The request bodies. A string is the list of its characters, so \<open>length\<close> is Python's
  \<open>len\<close>; a missing identifier is the empty string, which \<open>not vid\<close> catches.
\<close>

record TranscribeRequest =
  video_id :: string

record ProgressiveRequest = TranscribeRequest +
  job_id :: string
  worker_id :: string

text \<open>
  What \<open>transcribe_audio\<close> returns: the segments the generator yields, the exception it
  raises after them (if any), and the duration reported in \<open>info\<close>.
\<close>

record transcription =
  segs_gen :: "Segment list"
  gen_raises :: "string option"
  info_duration :: real

definition flush_interval :: nat where
  "flush_interval = 20"

text \<open>The local variables of the loop, and the requests sent so far.\<close>

record flush_state =
  segments :: "seg list"
  last_flush_count :: nat
  sent :: "call list"

text \<open>One iteration of \<open>for s in segs_gen\<close> in \<open>transcribe_progressive\<close>.\<close>

definition append_and_flush ::
  "config \<Rightarrow> (nat \<Rightarrow> bool) \<Rightarrow> 'a ProgressiveRequest_scheme \<Rightarrow> real \<Rightarrow> Segment \<Rightarrow> flush_state \<Rightarrow> flush_state" where
  "append_and_flush cfg urlopen_ok req estimated_duration s st =
     (let segs = segments st @ [seg_to_dict s] in
      if int (length segs) - int (last_flush_count st) \<ge> int flush_interval
      then
        let last_time = offset (last segs);
            pct = min 95 (py_int (fl (fl (last_time / estimated_duration) * 100)))
        in (case supabase_upsert_segments cfg urlopen_ok Periodic (video_id req) segs (sent st) of
              (Inr u, sent1) \<Rightarrow>
                \<lparr>segments = segs, last_flush_count = length segs,
                 sent = supabase_heartbeat cfg (job_id req) (worker_id req) None
                          (Some pct) (Some (length segs)) sent1\<rparr>
            | (Inl e, sent1) \<Rightarrow>
                \<lparr>segments = segs, last_flush_count = last_flush_count st, sent = sent1\<rparr>)
      else st\<lparr>segments := segs\<rparr>)"

primrec flush_loop ::
  "config \<Rightarrow> (nat \<Rightarrow> bool) \<Rightarrow> 'a ProgressiveRequest_scheme \<Rightarrow> real \<Rightarrow> Segment list \<Rightarrow> flush_state \<Rightarrow> flush_state" where
  "flush_loop cfg urlopen_ok req estimated_duration [] st = st"
| "flush_loop cfg urlopen_ok req estimated_duration (s # ss) st =
     flush_loop cfg urlopen_ok req estimated_duration ss
       (append_and_flush cfg urlopen_ok req estimated_duration s st)"

text \<open>\<open>info.duration or 600\<close>: a duration of 0 is falsy.\<close>

definition estimated_duration :: "transcription \<Rightarrow> real" where
  "estimated_duration t = (if info_duration t = 0 then 600 else info_duration t)"

text \<open>The final flush after the loop: its exception is caught and printed.\<close>

definition final_flush ::
  "config \<Rightarrow> (nat \<Rightarrow> bool) \<Rightarrow> string \<Rightarrow> seg list \<Rightarrow> call list \<Rightarrow> call list" where
  "final_flush cfg urlopen_ok vid segs sent0 =
     (if segs \<noteq> [] then snd (supabase_upsert_segments cfg urlopen_ok Final vid segs sent0)
      else sent0)"

section \<open>whisperx-service.py: the two endpoints\<close>

text \<open>
  The process-wide state: the GPU lock (\<open>True\<close> while held), the two module-level
  variables read by \<open>/status\<close>, and the directories that exist under \<open>/tmp\<close>.
  An endpoint takes the state on entry and returns the state on exit; a job of another
  request that is still running shows as a lock that is held on entry.
\<close>

record service =
  gpu_lock :: bool
  currently_processing :: "string option"
  transcription_count :: nat
  tmp :: "string set"

text \<open>
  What the surroundings do during one request: the directory \<open>tempfile.mkdtemp\<close> creates
  (\<open>None\<close> when it raises \<open>OSError\<close>), the run of the download subprocess, the result of
  \<open>transcribe_audio\<close> (the text of the exception when loading or starting the model
  raises), and the fate of each upsert.
\<close>

record world =
  mkdtemp_result :: "string option"
  ytdlp :: ytdlp_run
  whisper :: "string + transcription"
  urlopen_ok :: "nat \<Rightarrow> bool"

definition mkdtemp :: "string option \<Rightarrow> string set \<Rightarrow> exn + string" where
  "mkdtemp r dirs =
     (case r of
        None \<Rightarrow> Inl (Exception ''OSError'')
      | Some d \<Rightarrow> if d \<in> dirs then Inl (Exception ''FileExistsError'') else Inr d)"

datatype response =
    TranscribeResponse "seg list" real
  | ProgressiveResponse "seg list" real nat

text \<open>
  The two \<open>except\<close> clauses of both endpoints: an \<open>HTTPException\<close> is raised again, any
  other exception becomes status 500 with its text. The \<open>finally\<close> clause is \<open>cleanup\<close>.
\<close>

definition reraise :: "exn + 'a \<Rightarrow> exn + 'a" where
  "reraise r = (case r of Inl (Exception m) \<Rightarrow> Inl (HTTPException 500 (Str m)) | _ \<Rightarrow> r)"

definition cleanup :: "string \<Rightarrow> service \<Rightarrow> service" where
  "cleanup tmpdir sv =
     sv\<lparr>currently_processing := None, gpu_lock := False, tmp := tmp sv - {tmpdir}\<rparr>"

text \<open>The \<open>try\<close> block of \<open>transcribe\<close>.\<close>

definition transcribe_try :: "world \<Rightarrow> service \<Rightarrow> (exn + response) \<times> service" where
  "transcribe_try w sv =
     (case download_audio (ytdlp w) of
        Inl e \<Rightarrow> (Inl e, sv)
      | Inr audio_path \<Rightarrow>
          (case whisper w of
             Inl m \<Rightarrow> (Inl (Exception m), sv)
           | Inr t \<Rightarrow>
               let segs = map seg_to_dict (segs_gen t) in
               (case gen_raises t of
                  Some m \<Rightarrow> (Inl (Exception m), sv)
                | None \<Rightarrow>
                    (Inr (TranscribeResponse segs (info_duration t)),
                     sv\<lparr>transcription_count := transcription_count sv + 1\<rparr>))))"

definition transcribe ::
  "world \<Rightarrow> 'a TranscribeRequest_scheme \<Rightarrow> service \<Rightarrow> (exn + response) \<times> service" where
  "transcribe w req sv =
     (let vid = video_id req in
      if vid = [] \<or> length vid \<noteq> 11 then (Inl (HTTPException 400 InvalidVideoId), sv)
      else if gpu_lock sv then (Inl (HTTPException 503 GpuBusy), sv)
      else
        let sv1 = sv\<lparr>gpu_lock := True, currently_processing := Some vid\<rparr> in
        (case mkdtemp (mkdtemp_result w) (tmp sv1) of
           Inl e \<Rightarrow> (Inl e, sv1)
         | Inr tmpdir \<Rightarrow>
             (case transcribe_try w (sv1\<lparr>tmp := insert tmpdir (tmp sv1)\<rparr>) of
                (r, sv2) \<Rightarrow> (reraise r, cleanup tmpdir sv2))))"

text \<open>
  The \<open>try\<close> block of \<open>transcribe_progressive\<close>; the requests it sent are returned with
  the result.
\<close>

definition progressive_try ::
  "config \<Rightarrow> world \<Rightarrow> 'a ProgressiveRequest_scheme \<Rightarrow> service
     \<Rightarrow> (exn + response) \<times> call list \<times> service" where
  "progressive_try cfg w req sv =
     (case download_audio (ytdlp w) of
        Inl e \<Rightarrow> (Inl e, [], sv)
      | Inr audio_path \<Rightarrow>
          let sent0 = supabase_heartbeat cfg (job_id req) (worker_id req)
                        (Some ''transcribing'') None None []
          in (case whisper w of
                Inl m \<Rightarrow> (Inl (Exception m), sent0, sv)
              | Inr t \<Rightarrow>
                  let st = flush_loop cfg (urlopen_ok w) req (estimated_duration t) (segs_gen t)
                             \<lparr>segments = [], last_flush_count = 0, sent = sent0\<rparr>
                  in (case gen_raises t of
                        Some m \<Rightarrow> (Inl (Exception m), sent st, sv)
                      | None \<Rightarrow>
                          (Inr (ProgressiveResponse (segments st) (info_duration t)
                                  (length (segments st))),
                           final_flush cfg (urlopen_ok w) (video_id req) (segments st) (sent st),
                           sv\<lparr>transcription_count := transcription_count sv + 1\<rparr>))))"

definition transcribe_progressive ::
  "config \<Rightarrow> world \<Rightarrow> 'a ProgressiveRequest_scheme \<Rightarrow> service
     \<Rightarrow> (exn + response) \<times> call list \<times> service" where
  "transcribe_progressive cfg w req sv =
     (if unset (SUPABASE_URL cfg) \<or> unset (SUPABASE_KEY cfg)
      then (Inl (HTTPException 500 SupabaseNotConfigured), [], sv)
      else
        let vid = video_id req in
        if vid = [] \<or> length vid \<noteq> 11 then (Inl (HTTPException 400 InvalidVideoId), [], sv)
        else if gpu_lock sv then (Inl (HTTPException 503 GpuBusy), [], sv)
        else
          let sv1 = sv\<lparr>gpu_lock := True, currently_processing := Some vid\<rparr> in
          (case mkdtemp (mkdtemp_result w) (tmp sv1) of
             Inl e \<Rightarrow> (Inl e, [], sv1)
           | Inr tmpdir \<Rightarrow>
               (case progressive_try cfg w req (sv1\<lparr>tmp := insert tmpdir (tmp sv1)\<rparr>) of
                  (r, sent1, sv2) \<Rightarrow> (reraise r, sent1, cleanup tmpdir sv2))))"

text \<open>
  Reading the requests a job sent: the upserts with the place they were sent from, and
  the progress reports as pairs of \<open>segments_written\<close> and \<open>progress_pct\<close>.
\<close>

fun upsert_of :: "call \<Rightarrow> (site \<times> seg list) list" where
  "upsert_of (Upsert k v segs d ok) = [(k, segs)]"
| "upsert_of (Heartbeat j w s p n) = []"

definition upserts :: "call list \<Rightarrow> (site \<times> seg list) list" where
  "upserts cs = concat (map upsert_of cs)"

fun checkpoint_of :: "call \<Rightarrow> (nat \<times> int) list" where
  "checkpoint_of (Heartbeat j w s (Some p) (Some n)) = [(n, p)]"
| "checkpoint_of c = []"

definition checkpoints :: "call list \<Rightarrow> (nat \<times> int) list" where
  "checkpoints cs = concat (map checkpoint_of cs)"

section \<open>whisperx-service.py: the startup sweep\<close>

text \<open>
  \<open>/tmp\<close> as the list of its entries. An entry has its name, the \<open>st_mtime\<close> that
  \<open>stat\<close> returns (\<open>None\<close> when \<open>stat\<close> raises), its kind, and whether the process is
  able to delete all of it. \<open>shutil.rmtree(p, ignore_errors=True)\<close> removes a directory
  that it can delete entirely; on a regular file or a symbolic link it fails, as it does
  on a tree it may not delete, and the failure is ignored: the entry stays.
  \<open>glob_whisperx\<close> is \<open>Path("/tmp").glob("whisperx-*")\<close>, which lists entries of every
  kind; \<open>hf_home\<close> is the environment variable \<open>HF_HOME\<close> (empty when it is not set) and
  \<open>now\<close> is \<open>time.time()\<close>; the cutoff \<open>time.time() - 3600\<close> is a float subtraction.
\<close>

datatype kind = Directory | RegularFile | Symlink

record entry =
  name :: string
  st_mtime :: "real option"
  kind :: kind
  removable :: bool

type_synonym tmp_root = "entry list"

definition startswith :: "string \<Rightarrow> string \<Rightarrow> bool" where
  "startswith s p = (take (length p) s = p)"

definition glob_whisperx :: "tmp_root \<Rightarrow> tmp_root" where
  "glob_whisperx ents = filter (\<lambda>p. startswith (name p) ''whisperx-'') ents"

definition rmtree :: "entry \<Rightarrow> tmp_root \<Rightarrow> tmp_root" where
  "rmtree p ents =
     (if kind p = Directory \<and> removable p then filter (\<lambda>q. name q \<noteq> name p) ents
      else ents)"

definition sweep_one :: "string \<Rightarrow> real \<Rightarrow> entry \<Rightarrow> tmp_root \<Rightarrow> tmp_root" where
  "sweep_one hf_home cutoff p ents =
     (if hf_home \<noteq> [] \<and> ''/tmp/'' @ name p = hf_home then ents
      else if \<not> startswith (name p) ''whisperx-'' \<or> length (name p) < 15 then ents
      else (case st_mtime p of
              None \<Rightarrow> ents
            | Some mtime \<Rightarrow> if mtime < cutoff then rmtree p ents else ents))"

definition cleanup_orphan_temps :: "string \<Rightarrow> real \<Rightarrow> tmp_root \<Rightarrow> tmp_root" where
  "cleanup_orphan_temps hf_home now ents =
     fold (sweep_one hf_home (fl (now - 3600))) (glob_whisperx ents) ents"

text \<open>
  The naming pattern of the sweep: the glob, and the length check on the name that the
  loop applies after it.
\<close>

definition looks_like_tempdir :: "string \<Rightarrow> bool" where
  "looks_like_tempdir n = (startswith n ''whisperx-'' \<and> 15 \<le> length n)"

section \<open>embedding-service.py: the embed endpoint\<close>

record EmbedRequest =
  texts :: "string list"
  input_type :: string

record EmbedResponse =
  embeddings :: "real list list"
  model :: string
  dimensions :: nat

definition MODEL_NAME :: string where
  "MODEL_NAME = ''nomic-ai/nomic-embed-text-v1.5''"

definition EMBED_DIM :: nat where
  "EMBED_DIM = 1024"

text \<open>
  The sentence-transformer is outside the repository: \<open>encode\<close> is a parameter. It
  returns the embeddings of the prefixed texts, or the text of the exception it raised,
  which the endpoint does not catch.
\<close>

definition embed ::
  "(string list \<Rightarrow> string + real list list) \<Rightarrow> EmbedRequest \<Rightarrow> exn + EmbedResponse" where
  "embed encode req =
     (if texts req = [] then Inl (HTTPException 400 EmptyTextsList)
      else if length (texts req) > 256 then Inl (HTTPException 400 MaxTextsPerRequest)
      else
        let prefix = (if input_type req = ''document''
                      then ''search_document: '' else ''search_query: '');
            prefixed = map (\<lambda>t. prefix @ t) (texts req)
        in (case encode prefixed of
              Inl e \<Rightarrow> Inl (Exception e)
            | Inr embs \<Rightarrow>
                Inr \<lparr>embeddings = embs, model = MODEL_NAME, dimensions = EMBED_DIM\<rparr>))"

definition rejected_400 :: "exn + 'a \<Rightarrow> bool" where
  "rejected_400 r = (case r of Inl (HTTPException c d) \<Rightarrow> c = 400 | _ \<Rightarrow> False)"

section \<open>Notions used in the statements\<close>

text \<open>
  Both credentials are set; the state of the loop before the first segment; the test
  of the loop, read on the state before the segment is appended (the count after the
  append, less the count at the last flush, has reached the interval).
\<close>

definition configured :: "config \<Rightarrow> bool" where
  "configured cfg = (\<not> unset (SUPABASE_URL cfg) \<and> \<not> unset (SUPABASE_KEY cfg))"

definition fresh :: "call list \<Rightarrow> flush_state" where
  "fresh sent0 = \<lparr>segments = [], last_flush_count = 0, sent = sent0\<rparr>"

definition threshold :: "flush_state \<Rightarrow> bool" where
  "threshold st = (int flush_interval \<le> int (length (segments st)) + 1 - int (last_flush_count st))"

text \<open>
  The request sent on entering the transcription stage, as the endpoint builds it and
  as it looks once the credentials are known to be set.
\<close>

definition stage_report :: "config \<Rightarrow> 'a ProgressiveRequest_scheme \<Rightarrow> call list" where
  "stage_report cfg req =
     supabase_heartbeat cfg (job_id req) (worker_id req) (Some ''transcribing'') None None []"

definition announced :: "'a ProgressiveRequest_scheme \<Rightarrow> call list" where
  "announced req = [Heartbeat (job_id req) (worker_id req) (Some ''transcribing'') None None]"

text \<open>
  A request that passes entry validation and finds the guard free, a scratch directory
  \<open>d\<close> that could be created, a download that succeeds, and a stream \<open>t\<close> that ends
  without raising.
\<close>

definition job_runs ::
  "config \<Rightarrow> world \<Rightarrow> 'a ProgressiveRequest_scheme \<Rightarrow> service \<Rightarrow> string \<Rightarrow> transcription \<Rightarrow> bool" where
  "job_runs cfg w req sv d t =
     (configured cfg \<and> length (video_id req) = 11 \<and> \<not> gpu_lock sv \<and>
      mkdtemp (mkdtemp_result w) (tmp sv) = Inr d \<and>
      \<not> isl (download_audio (ytdlp w)) \<and> whisper w = Inr t \<and> gen_raises t = None)"

text \<open>
  The periodic checkpoint expected after \<open>k\<close> full intervals, and the one attempted at
  segment \<open>k\<close> while the store is down; the number of segments in each upsert; the
  number of upserts sent from one place.
\<close>

definition periodic_at :: "seg list \<Rightarrow> nat \<Rightarrow> site \<times> seg list" where
  "periodic_at segs k = (Periodic, take (flush_interval * k) segs)"

definition attempt_at :: "seg list \<Rightarrow> nat \<Rightarrow> site \<times> seg list" where
  "attempt_at segs k = (Periodic, take k segs)"

definition sizes :: "(site \<times> seg list) list \<Rightarrow> (site \<times> nat) list" where
  "sizes ups = map (\<lambda>p. (fst p, length (snd p))) ups"

definition count_site :: "site \<Rightarrow> (site \<times> seg list) list \<Rightarrow> nat" where
  "count_site k ups = length (filter (\<lambda>p. fst p = k) ups)"

text \<open>
  The progress computed in the loop, and what a progress report \<open>(n, p)\<close> has to be
  for the segments \<open>segs\<close>: sent after segment \<open>n\<close>, with the progress of that segment's
  offset.
\<close>

definition pct :: "real \<Rightarrow> real \<Rightarrow> int" where
  "pct est off = min 95 (py_int (fl (fl (off / est) * 100)))"

definition ckpt_ok :: "real \<Rightarrow> seg list \<Rightarrow> nat \<times> int \<Rightarrow> bool" where
  "ckpt_ok est segs np =
     (0 < fst np \<and> fst np \<le> length segs \<and> snd np = pct est (offset (segs ! (fst np - 1))))"

text \<open>
  What \<open>sweep_one\<close> removes, by the tests of the source and of \<open>rmtree\<close>; and an orphan
  in the words of the specification: the name has the pattern of a scratch directory, the
  path is not the model cache, and the last modification is before the cutoff, one hour
  before \<open>now\<close>.
\<close>

definition swept :: "string \<Rightarrow> real \<Rightarrow> entry \<Rightarrow> bool" where
  "swept hf_home cutoff p =
     (looks_like_tempdir (name p) \<and> \<not> (hf_home \<noteq> [] \<and> ''/tmp/'' @ name p = hf_home) \<and>
      (case st_mtime p of None \<Rightarrow> False | Some t \<Rightarrow> t < cutoff) \<and>
      kind p = Directory \<and> removable p)"

definition orphan :: "string \<Rightarrow> real \<Rightarrow> entry \<Rightarrow> bool" where
  "orphan hf_home now p =
     (looks_like_tempdir (name p) \<and> ''/tmp/'' @ name p \<noteq> hf_home \<and>
      (case st_mtime p of None \<Rightarrow> False | Some mtime \<Rightarrow> mtime < fl (now - 3600)))"

section \<open>Example inputs\<close>

text \<open>
  Configurations with and without credentials, an idle service, a well-formed request,
  a stream of \<open>n\<close> one-second segments (segment \<open>i\<close> starts at second \<open>i\<close>), a world in
  which everything but the store is sure to work, stores that always and never answer,
  a world in which \<open>mkdtemp\<close> raises, a loop state one segment before its first flush,
  a stream of 20 one-second segments that starts at second 10 of a 100 second recording,
  and a \<open>/tmp\<close> with old and young scratch directories, the model cache, a short name,
  a foreign name, a directory exactly one hour old, one whose \<open>stat\<close> fails, an old
  regular file and an old symbolic link with the name of a scratch directory, and an old
  scratch directory that the process may not delete.
\<close>

definition cfg0 :: config where
  "cfg0 = \<lparr>SUPABASE_URL = Some ''https://store.example'', SUPABASE_KEY = Some ''service-role''\<rparr>"

definition no_cfg :: config where
  "no_cfg = \<lparr>SUPABASE_URL = None, SUPABASE_KEY = None\<rparr>"

definition idle :: service where
  "idle = \<lparr>gpu_lock = False, currently_processing = None, transcription_count = 0, tmp = {}\<rparr>"

definition req0 :: ProgressiveRequest where
  "req0 = \<lparr>video_id = ''dQw4w9WgXcQ'', job_id = ''job-1'', worker_id = ''gpu-1''\<rparr>"

definition sec :: "nat \<Rightarrow> Segment" where
  "sec i = \<lparr>s_text = ''hello'', s_start = real i, s_end = real i + 1, s_words = []\<rparr>"

definition speech :: "nat \<Rightarrow> transcription" where
  "speech n = \<lparr>segs_gen = map sec [0..<n], gen_raises = None, info_duration = real n\<rparr>"

definition studio :: "(nat \<Rightarrow> bool) \<Rightarrow> transcription \<Rightarrow> world" where
  "studio ok t =
     \<lparr>mkdtemp_result = Some ''/tmp/whisperx-abcdefgh'',
      ytdlp = downloaded ''/tmp/whisperx-abcdefgh/audio.webm'' 5000,
      whisper = Inr t, urlopen_ok = ok\<rparr>"

definition all_ok :: "nat \<Rightarrow> bool" where
  "all_ok i = True"

definition store_down :: "nat \<Rightarrow> bool" where
  "store_down i = False"

definition tmp_full :: world where
  "tmp_full = (studio all_ok (speech 1))\<lparr>mkdtemp_result := None\<rparr>"

definition st19 :: flush_state where
  "st19 = \<lparr>segments = map seg_to_dict (map sec [0..<19]), last_flush_count = 0, sent = []\<rparr>"

definition lecture :: transcription where
  "lecture = \<lparr>segs_gen = map sec [10..<30], gen_raises = None, info_duration = 100\<rparr>"

definition tmp_entry :: "string \<Rightarrow> real option \<Rightarrow> kind \<Rightarrow> bool \<Rightarrow> entry" where
  "tmp_entry n t k r = \<lparr>name = n, st_mtime = t, kind = k, removable = r\<rparr>"

definition tmp0 :: tmp_root where
  "tmp0 = [tmp_entry ''whisperx-abcdefgh'' (Some 1000) Directory True,
           tmp_entry ''whisperx-ijklmnop'' (Some 9000) Directory True,
           tmp_entry ''whisperx-hf-cache'' (Some 0) Directory True,
           tmp_entry ''whisperx-old'' (Some 0) Directory True,
           tmp_entry ''pip-build-env'' (Some 0) Directory True,
           tmp_entry ''whisperx-qrstuvwx'' (Some 6400) Directory True,
           tmp_entry ''whisperx-yzabcdef'' None Directory True,
           tmp_entry ''whisperx-file1234'' (Some 1000) RegularFile True,
           tmp_entry ''whisperx-link5678'' (Some 1000) Symlink True,
           tmp_entry ''whisperx-rootonly'' (Some 1000) Directory False]"

section \<open>Audio size boundaries\<close>

text \<open>
  Claim C8. A downloaded file of exactly 1000 bytes and one of exactly 1,500,000,000 bytes
  are accepted; 999 bytes fails as too small and 1,500,000,001 bytes as too large. The
  too-large failure has status 413, and no other failure of the download has that status.
\<close>

theorem download_audio_size_boundaries:
  "download_audio (downloaded p 1000) = Inr p \<and>
   download_audio (downloaded p 1500000000) = Inr p \<and>
   download_audio (downloaded p 999) = Inl (HTTPException 502 (AudioTooSmall 999)) \<and>
   download_audio (downloaded p 1500000001) =
     Inl (HTTPException 413 (AudioTooLarge 1500000001 1500000000)) \<and>
   (\<forall>r c d. download_audio r = Inl (HTTPException c d) \<longrightarrow>
      (c = 413) = (\<exists>n m. d = AudioTooLarge n m))"
  by (auto simp: download_audio_def downloaded_def MAX_AUDIO_BYTES_def
           split: if_splits list.splits)

theorem download_audio_size_boundaries_witness:
  "download_audio (downloaded ''/tmp/whisperx-abcdefgh/audio.webm'' 1500000001) =
     Inl (HTTPException 413 (AudioTooLarge 1500000001 1500000000)) \<and>
   (413 = (413::nat)) = (\<exists>n m. AudioTooLarge 1500000001 1500000000 = AudioTooLarge n m)"
proof -
  let ?r = "downloaded ''/tmp/whisperx-abcdefgh/audio.webm'' 1500000001"
  from download_audio_size_boundaries [of "''/tmp/whisperx-abcdefgh/audio.webm''"]
  have big: "download_audio ?r = Inl (HTTPException 413 (AudioTooLarge 1500000001 1500000000))"
    and all: "\<forall>r c d. download_audio r = Inl (HTTPException c d) \<longrightarrow>
                (c = 413) = (\<exists>n m. d = AudioTooLarge n m)"
    by blast+
  from all big have "(413 = (413::nat)) =
      (\<exists>n m. AudioTooLarge 1500000001 1500000000 = AudioTooLarge n m)"
    by blast
  with big show ?thesis by blast
qed

section \<open>The size cap of the embedding endpoint\<close>

text \<open>
  Claim C10. The embedding endpoint answers 400 if and only if the list of texts is empty
  or has more than 256 entries; a request with 1 to 256 texts is never rejected with 400.
\<close>

theorem embed_400_iff:
  "rejected_400 (embed encode req) = (texts req = [] \<or> length (texts req) > 256)"
  by (auto simp: embed_def rejected_400_def Let_def split: sum.splits)

section \<open>Rounding to the nearest float is monotone\<close>

text \<open>
  The powers of two bracket every positive real in one binade; within a binade the floats
  are the multiples of one \<open>ulp\<close>, and rounding to a multiple is monotone. \<open>fl_eval\<close>
  computes \<open>fl\<close> once the binade of the argument is known.
\<close>

lemma round_half_even_mono: "x \<le> y \<Longrightarrow> round_half_even x \<le> round_half_even y"
proof -
  assume xy: "x \<le> y"
  have fxy: "\<lfloor>x\<rfloor> \<le> \<lfloor>y\<rfloor>" using xy by (rule floor_mono)
  have lo: "\<lfloor>z\<rfloor> \<le> round_half_even z" for z by (simp add: round_half_even_def Let_def)
  have hi: "round_half_even z \<le> \<lfloor>z\<rfloor> + 1" for z by (simp add: round_half_even_def Let_def)
  show ?thesis
  proof (cases "\<lfloor>x\<rfloor> = \<lfloor>y\<rfloor>")
    case True
    with xy show ?thesis by (simp add: round_half_even_def Let_def)
  next
    case False
    with fxy have "\<lfloor>x\<rfloor> + 1 \<le> \<lfloor>y\<rfloor>" by simp
    with lo [of y] hi [of x] show ?thesis by linarith
  qed
qed

lemma round_half_even_of_int: "round_half_even (of_int n) = n"
  by (simp add: round_half_even_def)

lemma pow2_powr: "pow2 e = 2 powr (of_int e)"
  by (simp add: pow2_def powr_int)

lemma pow2_pos: "0 < pow2 e"
  by (simp add: pow2_powr)

lemma pow2_mono: "e \<le> e' \<Longrightarrow> pow2 e \<le> pow2 e'"
  by (simp add: pow2_powr)

lemma pow2_add: "pow2 (a + b) = pow2 a * pow2 b"
  by (simp add: pow2_powr powr_add)

lemma binade_lower: "x \<noteq> 0 \<Longrightarrow> pow2 \<lfloor>log 2 \<bar>x\<bar>\<rfloor> \<le> \<bar>x\<bar>"
proof -
  assume "x \<noteq> 0"
  then have a: "0 < \<bar>x\<bar>" by simp
  have "of_int \<lfloor>log 2 \<bar>x\<bar>\<rfloor> \<le> log 2 \<bar>x\<bar>" by simp
  then have "(2::real) powr of_int \<lfloor>log 2 \<bar>x\<bar>\<rfloor> \<le> 2 powr log 2 \<bar>x\<bar>"
    by (simp only: powr_le_cancel_iff one_less_numeral_iff semiring_norm)
  also have "\<dots> = \<bar>x\<bar>" using a by simp
  finally show ?thesis by (simp only: pow2_powr)
qed

lemma binade_upper: "x \<noteq> 0 \<Longrightarrow> \<bar>x\<bar> < pow2 (\<lfloor>log 2 \<bar>x\<bar>\<rfloor> + 1)"
proof -
  assume "x \<noteq> 0"
  then have a: "0 < \<bar>x\<bar>" by simp
  have "log 2 \<bar>x\<bar> < of_int (\<lfloor>log 2 \<bar>x\<bar>\<rfloor> + 1)" by linarith
  then have "(2::real) powr log 2 \<bar>x\<bar> < 2 powr of_int (\<lfloor>log 2 \<bar>x\<bar>\<rfloor> + 1)"
    by (simp only: powr_less_cancel_iff one_less_numeral_iff semiring_norm)
  moreover have "2 powr log 2 \<bar>x\<bar> = \<bar>x\<bar>" using a by simp
  ultimately show ?thesis by (simp only: pow2_powr)
qed

lemma binade_unique:
  assumes "0 < x" "pow2 e \<le> x" "x < pow2 (e + 1)"
  shows "\<lfloor>log 2 x\<rfloor> = e"
proof (rule floor_unique)
  have "log 2 (pow2 e) \<le> log 2 x"
    using assms(1,2) pow2_pos [of e] by simp
  then show "of_int e \<le> log 2 x" by (simp add: pow2_powr)
  have "log 2 x < log 2 (pow2 (e + 1))"
    using assms(1,3) pow2_pos [of "e + 1"] by simp
  then show "log 2 x < of_int e + 1" by (simp add: pow2_powr)
qed

lemma binade_mono: "0 < x \<Longrightarrow> x \<le> y \<Longrightarrow> \<lfloor>log 2 x\<rfloor> \<le> \<lfloor>log 2 y\<rfloor>"
  by (rule floor_mono) simp

lemma ulp_pos: "0 < ulp x"
  by (simp add: ulp_def pow2_pos)

lemma fl_pos_eq: "0 < x \<Longrightarrow> fl x = of_int (round_half_even (x / ulp x)) * ulp x"
  by (simp add: fl_def)

lemma grid_lower:
  assumes u: "0 < u" and m: "of_int m * u \<le> a"
  shows "of_int m * u \<le> of_int (round_half_even (a / u)) * u"
proof -
  from u m have "of_int m \<le> a / u" by (simp add: pos_le_divide_eq)
  then have "round_half_even (of_int m) \<le> round_half_even (a / u)"
    by (rule round_half_even_mono)
  then have "m \<le> round_half_even (a / u)" by (simp only: round_half_even_of_int)
  then have "(of_int m :: real) \<le> of_int (round_half_even (a / u))" by simp
  then show ?thesis using u by (simp only: mult_le_cancel_right_pos)
qed

lemma grid_upper:
  assumes u: "0 < u" and m: "a \<le> of_int m * u"
  shows "of_int (round_half_even (a / u)) * u \<le> of_int m * u"
proof -
  from u m have "a / u \<le> of_int m" by (simp add: pos_divide_le_eq)
  then have "round_half_even (a / u) \<le> round_half_even (of_int m)"
    by (rule round_half_even_mono)
  then have "round_half_even (a / u) \<le> m" by (simp only: round_half_even_of_int)
  then have "(of_int (round_half_even (a / u)) :: real) \<le> of_int m" by simp
  then show ?thesis using u by (simp only: mult_le_cancel_right_pos)
qed

lemma pow2_split: "pow2 e = of_int (2 ^ k) * pow2 (e - int k)"
proof -
  have "pow2 e = pow2 (int k + (e - int k))" by simp
  also have "\<dots> = pow2 (int k) * pow2 (e - int k)" by (rule pow2_add)
  also have "pow2 (int k) = of_int (2 ^ k)" by (simp add: pow2_def)
  finally show ?thesis .
qed

lemma exponent_ge: "\<lfloor>log 2 \<bar>x\<bar>\<rfloor> \<le> exponent x" "- 1022 \<le> exponent x"
  by (simp_all add: exponent_def)

lemma fl_upper:
  assumes x: "0 < x"
  shows "fl x \<le> pow2 (exponent x + 1)"
proof -
  from x have "x < pow2 (\<lfloor>log 2 \<bar>x\<bar>\<rfloor> + 1)" using binade_upper [of x] by simp
  also have "\<dots> \<le> pow2 (exponent x + 1)"
    by (rule pow2_mono) (simp add: exponent_ge)
  finally have "x \<le> pow2 (exponent x + 1)" by simp
  also have "pow2 (exponent x + 1) = of_int (2 ^ 53) * pow2 (exponent x + 1 - int 53)"
    by (rule pow2_split)
  also have "exponent x + 1 - int 53 = exponent x - 52" by simp
  finally have le: "x \<le> of_int (2 ^ 53) * ulp x" by (simp only: ulp_def)
  have "fl x = of_int (round_half_even (x / ulp x)) * ulp x" using x by (rule fl_pos_eq)
  also have "\<dots> \<le> of_int (2 ^ 53) * ulp x" using ulp_pos le by (rule grid_upper)
  also have "\<dots> = of_int (2 ^ 53) * pow2 (exponent x + 1 - int 53)" by (simp add: ulp_def)
  also have "\<dots> = pow2 (exponent x + 1)" by (rule pow2_split [symmetric])
  finally show ?thesis .
qed

lemma fl_lower:
  assumes x: "0 < x" and n: "- 1022 \<le> \<lfloor>log 2 x\<rfloor>"
  shows "pow2 \<lfloor>log 2 x\<rfloor> \<le> fl x"
proof -
  from x n have e: "exponent x = \<lfloor>log 2 x\<rfloor>" by (simp add: exponent_def)
  have s: "pow2 \<lfloor>log 2 x\<rfloor> = of_int (2 ^ 52) * ulp x"
    unfolding ulp_def e using pow2_split [of "\<lfloor>log 2 x\<rfloor>" 52] by simp
  from x have "pow2 \<lfloor>log 2 x\<rfloor> \<le> x" using binade_lower [of x] by simp
  then have "of_int (2 ^ 52) * ulp x \<le> x" by (simp only: s)
  with ulp_pos have "of_int (2 ^ 52) * ulp x \<le> of_int (round_half_even (x / ulp x)) * ulp x"
    by (rule grid_lower)
  then show ?thesis using x by (simp only: s fl_pos_eq)
qed

lemma fl_mono_pos:
  assumes x: "0 < x" and xy: "x \<le> y"
  shows "fl x \<le> fl y"
proof -
  from x xy have y: "0 < y" by simp
  have ee: "\<lfloor>log 2 x\<rfloor> \<le> \<lfloor>log 2 y\<rfloor>" using x xy by (rule binade_mono)
  have ax: "\<bar>x\<bar> = x" "\<bar>y\<bar> = y" using x y by simp_all
  have EE: "exponent x \<le> exponent y" using ee by (simp add: exponent_def ax)
  show ?thesis
  proof (cases "exponent x = exponent y")
    case True
    then have u: "ulp x = ulp y" by (simp add: ulp_def)
    from xy ulp_pos [of y] have "x / ulp y \<le> y / ulp y" by (simp add: divide_right_mono)
    then have "round_half_even (x / ulp y) \<le> round_half_even (y / ulp y)"
      by (rule round_half_even_mono)
    then have "(of_int (round_half_even (x / ulp y)) :: real) \<le> of_int (round_half_even (y / ulp y))"
      by simp
    then have "of_int (round_half_even (x / ulp y)) * ulp y \<le> of_int (round_half_even (y / ulp y)) * ulp y"
      using ulp_pos [of y] by (simp only: mult_le_cancel_right_pos)
    then show ?thesis by (simp only: fl_pos_eq [OF x] fl_pos_eq [OF y] u)
  next
    case False
    with EE have lt: "exponent x + 1 \<le> exponent y" by simp
    have "- 1022 < exponent y" using lt exponent_ge(2) [of x] by linarith
    then have ey: "exponent y = \<lfloor>log 2 y\<rfloor>" and n: "- 1022 \<le> \<lfloor>log 2 y\<rfloor>"
      by (simp_all add: exponent_def ax max_def split: if_splits)
    have "fl x \<le> pow2 (exponent x + 1)" using x by (rule fl_upper)
    also have "\<dots> \<le> pow2 (exponent y)" using lt by (rule pow2_mono)
    also have "\<dots> = pow2 \<lfloor>log 2 y\<rfloor>" by (simp only: ey)
    also have "\<dots> \<le> fl y" using y n by (rule fl_lower)
    finally show ?thesis .
  qed
qed

lemma fl_0: "fl 0 = 0"
  by (simp add: fl_def)

lemma fl_nonneg: "0 \<le> x \<Longrightarrow> 0 \<le> fl x"
proof (cases "x = 0")
  case True
  then show ?thesis by (simp add: fl_0)
next
  case False
  assume "0 \<le> x"
  with False have x: "0 < x" by simp
  have "of_int 0 * ulp x \<le> x" using x by simp
  with ulp_pos have "of_int 0 * ulp x \<le> of_int (round_half_even (x / ulp x)) * ulp x"
    by (rule grid_lower)
  then show ?thesis using x by (simp add: fl_pos_eq)
qed

lemma fl_minus: "fl (- x) = - fl x"
  by (simp add: fl_def ulp_def exponent_def sgn_minus)

lemma fl_mono: "x \<le> y \<Longrightarrow> fl x \<le> fl y"
proof -
  assume xy: "x \<le> y"
  consider "0 < x" | "x \<le> 0" "0 \<le> y" | "y < 0" by linarith
  then show ?thesis
  proof cases
    case 1
    then show ?thesis using xy by (rule fl_mono_pos)
  next
    case 2
    from 2(1) have "0 \<le> fl (- x)" by (intro fl_nonneg) simp
    then have "fl x \<le> 0" by (simp add: fl_minus)
    also have "0 \<le> fl y" using 2(2) by (rule fl_nonneg)
    finally show ?thesis .
  next
    case 3
    then have "0 < - y" "- y \<le> - x" using xy by simp_all
    then have "fl (- y) \<le> fl (- x)" by (rule fl_mono_pos)
    then show ?thesis by (simp add: fl_minus)
  qed
qed

lemma fl_eval:
  assumes x: "0 < x" and lo: "pow2 e \<le> x" and hi: "x < pow2 (e + 1)" and n: "- 1022 \<le> e"
  shows "fl x = of_int (round_half_even (x / pow2 (e - 52))) * pow2 (e - 52)"
proof -
  have "\<lfloor>log 2 x\<rfloor> = e" using x lo hi by (rule binade_unique)
  with x n have "exponent x = e" by (simp add: exponent_def)
  then show ?thesis using x by (simp add: fl_pos_eq ulp_def)
qed

section \<open>Decimal rounding and truncation are monotone\<close>

lemma py_round_mono: "x \<le> y \<Longrightarrow> py_round x n \<le> py_round y n"
proof -
  assume "x \<le> y"
  then have "x * 10 ^ n \<le> y * 10 ^ n" by (simp add: mult_right_mono)
  then have "round_half_even (x * 10 ^ n) \<le> round_half_even (y * 10 ^ n)"
    by (rule round_half_even_mono)
  then have "(of_int (round_half_even (x * 10 ^ n)) :: real) \<le> of_int (round_half_even (y * 10 ^ n))"
    by simp
  then have "(of_int (round_half_even (x * 10 ^ n)) :: real) / 10 ^ n
             \<le> of_int (round_half_even (y * 10 ^ n)) / 10 ^ n"
    by (rule divide_right_mono) simp
  then show ?thesis unfolding py_round_def by (rule fl_mono)
qed

lemma py_round_0: "py_round 0 n = 0"
  by (simp add: py_round_def round_half_even_def fl_0)

lemma py_round_nonneg: "0 \<le> x \<Longrightarrow> 0 \<le> py_round x n"
  using py_round_mono [of 0 x n] by (simp add: py_round_0)

lemma py_int_mono: "x \<le> y \<Longrightarrow> py_int x \<le> py_int y"
proof (cases "0 \<le> x")
  case True
  then show ?thesis if "x \<le> y" using that by (simp add: py_int_def floor_mono)
next
  case False
  then have cx: "\<lceil>x\<rceil> \<le> 0" by (simp add: ceiling_le_iff)
  show ?thesis if xy: "x \<le> y"
  proof (cases "0 \<le> y")
    case True
    then have fy: "0 \<le> \<lfloor>y\<rfloor>" by simp
    have "py_int x = \<lceil>x\<rceil>" "py_int y = \<lfloor>y\<rfloor>"
      using False True by (simp_all add: py_int_def)
    with cx fy show ?thesis by linarith
  next
    case F: False
    with False xy show ?thesis by (simp add: py_int_def ceiling_mono)
  qed
qed

lemma py_int_floor_min: "0 \<le> x \<Longrightarrow> min 95 (py_int x) = \<lfloor>min 95 x\<rfloor>"
  by (simp add: py_int_def min_def)

section \<open>The startup sweep removes what it should\<close>

lemma sweep_one_swept:
  "sweep_one hf c p ents =
     (if swept hf c p then filter (\<lambda>q. name q \<noteq> name p) ents else ents)"
  by (cases "st_mtime p")
     (simp_all add: sweep_one_def swept_def looks_like_tempdir_def rmtree_def)

lemma distinct_name_eq:
  assumes d: "distinct (map name ents)" and p: "p \<in> set ents" and q: "q \<in> set ents"
    and n: "name p = name q"
  shows "p = q"
proof -
  from d have "inj_on name (set ents)" by (simp add: distinct_map)
  then show ?thesis using n p q by (rule inj_onD)
qed

lemma glob_swept:
  assumes d: "distinct (map name ents)" and q: "q \<in> set ents"
  shows "(\<exists>p \<in> set (glob_whisperx ents). swept hf c p \<and> name p = name q) = swept hf c q"
proof
  assume "\<exists>p \<in> set (glob_whisperx ents). swept hf c p \<and> name p = name q"
  then obtain p where p: "p \<in> set ents" "swept hf c p" "name p = name q"
    by (auto simp: glob_whisperx_def)
  from d p(1) q p(3) have "p = q" by (rule distinct_name_eq)
  with p(2) show "swept hf c q" by simp
next
  assume dq: "swept hf c q"
  then have "startswith (name q) ''whisperx-''"
    by (simp add: swept_def looks_like_tempdir_def)
  with q have "q \<in> set (glob_whisperx ents)"
    by (simp add: glob_whisperx_def)
  with dq show "\<exists>p \<in> set (glob_whisperx ents). swept hf c p \<and> name p = name q" by blast
qed

section \<open>One iteration of the flush loop\<close>

text \<open>
  An iteration always appends the segment. Below the threshold it does nothing else; at
  the threshold it sends the whole list, and only a successful upsert is followed by a
  progress report and moves \<open>last_flush_count\<close>.
\<close>

lemma segments_append_and_flush:
  "segments (append_and_flush cfg ok req est s st) = segments st @ [seg_to_dict s]"
  by (simp add: append_and_flush_def Let_def split: prod.splits sum.splits)

lemma segments_flush_loop:
  "segments (flush_loop cfg ok req est ss st) = segments st @ map seg_to_dict ss"
  by (induction ss arbitrary: st) (simp_all add: segments_append_and_flush)

lemma flush_loop_snoc:
  "flush_loop cfg ok req est (ss @ [s]) st =
     append_and_flush cfg ok req est s (flush_loop cfg ok req est ss st)"
  by (induction ss arbitrary: st) simp_all

lemma upserts_append [simp]: "upserts (xs @ ys) = upserts xs @ upserts ys"
  by (simp add: upserts_def)

lemma checkpoints_append [simp]: "checkpoints (xs @ ys) = checkpoints xs @ checkpoints ys"
  by (simp add: checkpoints_def)

lemma length_upserts: "length (upserts cs) = length (filter is_upsert cs)"
proof (induction cs)
  case Nil
  show ?case by (simp add: upserts_def)
next
  case (Cons c cs)
  then show ?case by (cases c) (simp_all add: upserts_def)
qed

lemma step_quiet:
  "\<not> threshold st \<Longrightarrow>
     append_and_flush cfg ok req est s st = st\<lparr>segments := segments st @ [seg_to_dict s]\<rparr>"
  by (simp add: append_and_flush_def threshold_def Let_def)

lemma step_ok:
  assumes "configured cfg" "threshold st" "ok (length (filter is_upsert (sent st)))"
  shows "append_and_flush cfg ok req est s st =
     \<lparr>segments = segments st @ [seg_to_dict s],
      last_flush_count = length (segments st) + 1,
      sent = sent st @
        [Upsert Periodic (video_id req) (segments st @ [seg_to_dict s])
           (py_round (fl (offset (seg_to_dict s) + duration (seg_to_dict s))) 1) True,
         Heartbeat (job_id req) (worker_id req) None
           (Some (min 95 (py_int (fl (fl (offset (seg_to_dict s) / est) * 100)))))
           (Some (length (segments st) + 1))]\<rparr>"
  using assms
  by (simp add: append_and_flush_def threshold_def configured_def Let_def
        supabase_upsert_segments_def supabase_heartbeat_def)

lemma step_failed:
  assumes "configured cfg" "threshold st" "\<not> ok (length (filter is_upsert (sent st)))"
  shows "append_and_flush cfg ok req est s st =
     \<lparr>segments = segments st @ [seg_to_dict s],
      last_flush_count = last_flush_count st,
      sent = sent st @
        [Upsert Periodic (video_id req) (segments st @ [seg_to_dict s])
           (py_round (fl (offset (seg_to_dict s) + duration (seg_to_dict s))) 1) False]\<rparr>"
  using assms
  by (simp add: append_and_flush_def threshold_def configured_def Let_def
        supabase_upsert_segments_def supabase_heartbeat_def)

lemma step_unconfigured:
  assumes "\<not> configured cfg" "threshold st"
  shows "append_and_flush cfg ok req est s st =
     \<lparr>segments = segments st @ [seg_to_dict s],
      last_flush_count = last_flush_count st, sent = sent st\<rparr>"
  using assms
  by (auto simp add: append_and_flush_def threshold_def configured_def Let_def
        supabase_upsert_segments_def supabase_heartbeat_def)

lemma upserts_step:
  "configured cfg \<Longrightarrow>
   upserts (sent (append_and_flush cfg ok req est s st)) =
     upserts (sent st) @
       (if threshold st then [(Periodic, segments st @ [seg_to_dict s])] else [])"
  by (cases "threshold st"; cases "ok (length (filter is_upsert (sent st)))")
     (simp_all add: step_quiet step_ok step_failed upserts_def)

lemma checkpoints_step:
  "checkpoints (sent (append_and_flush cfg ok req est s st)) = checkpoints (sent st) \<or>
   checkpoints (sent (append_and_flush cfg ok req est s st)) =
     checkpoints (sent st) @
       [(length (segments st) + 1, min 95 (py_int (fl (fl (offset (seg_to_dict s) / est) * 100))))]"
  by (cases "threshold st"; cases "ok (length (filter is_upsert (sent st)))"; cases "configured cfg")
     (simp_all add: step_quiet step_ok step_failed step_unconfigured checkpoints_def)

section \<open>The loop when every upsert succeeds\<close>

lemma periodic_at_snoc:
  "k \<le> length segs div 20 \<Longrightarrow> periodic_at (segs @ [x]) k = periodic_at segs k"
proof -
  assume "k \<le> length segs div 20"
  then have "20 * k \<le> 20 * (length segs div 20)" by simp
  also have "\<dots> \<le> length segs" by simp
  finally show ?thesis by (simp add: periodic_at_def flush_interval_def)
qed

lemma map_periodic_at_snoc:
  "map (periodic_at (segs @ [x])) [1..<Suc (length segs div 20)] =
   map (periodic_at segs) [1..<Suc (length segs div 20)]"
proof (rule map_cong [OF refl])
  fix k assume "k \<in> set [1..<Suc (length segs div 20)]"
  then have "k \<le> length segs div 20" by auto
  then show "periodic_at (segs @ [x]) k = periodic_at segs k" by (rule periodic_at_snoc)
qed

lemma periodic_at_full:
  "length segs = 20 * k \<Longrightarrow> periodic_at segs k = (Periodic, segs)"
  by (simp add: periodic_at_def flush_interval_def)

lemma threshold_iff:
  assumes "length (segments st) = n" "last_flush_count st = 20 * (n div 20)"
  shows "threshold st = (n mod 20 = 19)"
proof -
  define q r where "q = n div 20" and "r = n mod 20"
  have n: "n = 20 * q + r" and r: "r < 20" by (simp_all add: q_def r_def)
  have len: "length (segments st) = 20 * q + r" using assms(1) n by linarith
  have lfc: "last_flush_count st = 20 * q" using assms(2) by (simp add: q_def)
  have "threshold st = (int 20 \<le> int (20 * q + r) + 1 - int (20 * q))"
    by (simp add: threshold_def flush_interval_def len lfc)
  also have "\<dots> = (r = 19)" using r by auto
  finally show ?thesis by (simp add: r_def)
qed

lemma Suc_div_20_full:
  assumes "(n::nat) mod 20 = 19"
  shows "Suc n = 20 * Suc (n div 20)" and "Suc n div 20 = Suc (n div 20)"
proof -
  define q where "q = n div 20"
  have "20 * q + n mod 20 = n" unfolding q_def by (rule mult_div_mod_eq)
  then have "20 * q + 19 = n" by (simp only: assms)
  then have e: "Suc n = 20 * Suc q" by simp
  then have "Suc n div 20 = Suc q" by simp
  with e show "Suc n = 20 * Suc (n div 20)" and "Suc n div 20 = Suc (n div 20)"
    by (simp_all only: q_def)
qed

lemma Suc_div_20_part:
  assumes "(n::nat) mod 20 \<noteq> 19"
  shows "Suc n div 20 = n div 20"
proof -
  define q r where "q = n div 20" and "r = n mod 20"
  have "r < 20" "r \<noteq> 19" using assms by (simp_all add: r_def)
  then have s: "Suc r < 20" by simp
  have "20 * q + r = n" unfolding q_def r_def by (rule mult_div_mod_eq)
  then have "Suc n = Suc r + q * 20" by simp
  then have "Suc n div 20 = (Suc r + q * 20) div 20" by (simp only:)
  also have "\<dots> = q" using s by simp
  finally show ?thesis by (simp only: q_def)
qed

lemma segments_flush_loop_fresh:
  "segments (flush_loop cfg ok req est ss (fresh sent0)) = map seg_to_dict ss"
  by (simp add: segments_flush_loop fresh_def)

text \<open>
  With a store that always answers, the loop flushes after every 20th segment and at no
  other time: \<open>last_flush_count\<close> is the largest multiple of 20 below the count.
\<close>

lemma all_ok_invariant:
  assumes cfg: "configured cfg" and ok: "\<And>i. ok i"
  shows "last_flush_count (flush_loop cfg ok req est ss (fresh sent0)) = 20 * (length ss div 20) \<and>
         upserts (sent (flush_loop cfg ok req est ss (fresh sent0))) =
           upserts sent0 @
           map (periodic_at (map seg_to_dict ss)) [1..<Suc (length ss div 20)]"
proof (induction ss rule: rev_induct)
  case Nil
  show ?case by (simp add: fresh_def)
next
  case (snoc s ss)
  define st where "st = flush_loop cfg ok req est ss (fresh sent0)"
  define n where "n = length ss"
  define segs where "segs = map seg_to_dict ss"
  define x where "x = seg_to_dict s"
  have len: "length segs = n" by (simp add: segs_def n_def)
  have sg: "segments st = segs"
    unfolding st_def segs_def by (rule segments_flush_loop_fresh)
  from snoc have lfc: "last_flush_count st = 20 * (n div 20)"
    and ups: "upserts (sent st) = upserts sent0 @ map (periodic_at segs) [1..<Suc (n div 20)]"
    by (simp_all add: st_def n_def segs_def)
  have th: "threshold st = (n mod 20 = 19)"
    using sg len lfc by (intro threshold_iff) simp_all
  have old: "map (periodic_at (segs @ [x])) [1..<Suc (n div 20)] =
             map (periodic_at segs) [1..<Suc (n div 20)]"
    using map_periodic_at_snoc [of segs x] by (simp only: len)
  have goal: "last_flush_count (append_and_flush cfg ok req est s st) = 20 * (Suc n div 20) \<and>
     upserts (sent (append_and_flush cfg ok req est s st)) =
       upserts sent0 @ map (periodic_at (segs @ [x])) [1..<Suc (Suc n div 20)]"
  proof (cases "n mod 20 = 19")
    case True
    then have d: "Suc n div 20 = Suc (n div 20)" and e: "Suc n = 20 * Suc (n div 20)"
      by (rule Suc_div_20_full)+
    from True th have t: "threshold st" by simp
    have lf: "last_flush_count (append_and_flush cfg ok req est s st) = Suc n"
      by (simp add: step_ok [OF cfg t ok] sg len)
    have "length (segs @ [x]) = 20 * Suc (n div 20)" using e len by simp
    then have full: "periodic_at (segs @ [x]) (Suc (n div 20)) = (Periodic, segs @ [x])"
      by (rule periodic_at_full)
    have u: "[1..<Suc (Suc (n div 20))] = [1..<Suc (n div 20)] @ [Suc (n div 20)]"
      by simp
    have "upserts (sent (append_and_flush cfg ok req est s st)) =
        upserts (sent st) @ [(Periodic, segs @ [x])]"
      by (simp add: upserts_step [OF cfg] t sg x_def)
    also have "\<dots> = upserts sent0 @
        (map (periodic_at (segs @ [x])) [1..<Suc (n div 20)] @
         [periodic_at (segs @ [x]) (Suc (n div 20))])"
      by (simp only: ups old full append_assoc)
    also have "\<dots> = upserts sent0 @ map (periodic_at (segs @ [x])) [1..<Suc (Suc (n div 20))]"
      by (simp only: u map_append list.map)
    finally show ?thesis using lf e d by simp
  next
    case False
    then have d: "Suc n div 20 = n div 20" by (rule Suc_div_20_part)
    from False th have t: "\<not> threshold st" by simp
    have "upserts (sent (append_and_flush cfg ok req est s st)) = upserts (sent st)"
      by (simp add: step_quiet [OF t])
    also have "\<dots> = upserts sent0 @ map (periodic_at (segs @ [x])) [1..<Suc (n div 20)]"
      by (simp only: ups old)
    finally show ?thesis
      by (simp add: step_quiet [OF t] lfc d)
  qed
  show ?case
    unfolding flush_loop_snoc using goal
    by (simp add: st_def n_def segs_def x_def)
qed

section \<open>A job that runs to the end of its stream\<close>

lemma heartbeat_announced:
  "configured cfg \<Longrightarrow>
   supabase_heartbeat cfg (job_id req) (worker_id req) (Some ''transcribing'') None None [] =
     announced req"
  by (simp add: supabase_heartbeat_def configured_def announced_def)

lemma progressive_try_run:
  assumes cfg: "configured cfg" and dl: "\<not> isl (download_audio (ytdlp w))"
    and wh: "whisper w = Inr t" and gr: "gen_raises t = None"
  shows "progressive_try cfg w req sv =
    (Inr (ProgressiveResponse (map seg_to_dict (segs_gen t)) (info_duration t) (length (segs_gen t))),
     final_flush cfg (urlopen_ok w) (video_id req) (map seg_to_dict (segs_gen t))
       (sent (flush_loop cfg (urlopen_ok w) req (estimated_duration t) (segs_gen t)
                (fresh (announced req)))),
     sv\<lparr>transcription_count := transcription_count sv + 1\<rparr>)"
proof -
  from dl obtain p where p: "download_audio (ytdlp w) = Inr p"
    by (cases "download_audio (ytdlp w)") simp_all
  show ?thesis
    by (simp add: progressive_try_def p wh gr Let_def heartbeat_announced [OF cfg]
          segments_flush_loop_fresh flip: fresh_def)
qed

lemma progressive_run:
  assumes "job_runs cfg w req sv d t"
  shows "transcribe_progressive cfg w req sv =
    (Inr (ProgressiveResponse (map seg_to_dict (segs_gen t)) (info_duration t) (length (segs_gen t))),
     final_flush cfg (urlopen_ok w) (video_id req) (map seg_to_dict (segs_gen t))
       (sent (flush_loop cfg (urlopen_ok w) req (estimated_duration t) (segs_gen t)
                (fresh (announced req)))),
     sv\<lparr>gpu_lock := False, currently_processing := None,
        transcription_count := transcription_count sv + 1, tmp := tmp sv - {d}\<rparr>)"
proof -
  from assms have cfg: "configured cfg" and len: "length (video_id req) = 11"
    and free: "\<not> gpu_lock sv" and mk: "mkdtemp (mkdtemp_result w) (tmp sv) = Inr d"
    and dl: "\<not> isl (download_audio (ytdlp w))" and wh: "whisper w = Inr t"
    and gr: "gen_raises t = None"
    by (simp_all add: job_runs_def)
  from len have ne: "video_id req \<noteq> []" by auto
  from cfg have u: "\<not> unset (SUPABASE_URL cfg)" "\<not> unset (SUPABASE_KEY cfg)"
    by (simp_all add: configured_def)
  show ?thesis
    by (simp add: transcribe_progressive_def u len ne free mk Let_def
          progressive_try_run [OF cfg dl wh gr] reraise_def cleanup_def)
qed

section \<open>Progress reports of the loop\<close>

lemma checkpoints_step_pct:
  "checkpoints (sent (append_and_flush cfg ok req est s st)) = checkpoints (sent st) \<or>
   checkpoints (sent (append_and_flush cfg ok req est s st)) =
     checkpoints (sent st) @ [(length (segments st) + 1, pct est (offset (seg_to_dict s)))]"
  unfolding pct_def by (rule checkpoints_step)

lemma ckpt_ok_new:
  "ckpt_ok est (segs @ x # rest) (length segs + 1, pct est (offset x))"
  by (simp add: ckpt_ok_def)

lemma checkpoints_loop:
  assumes "\<forall>np \<in> set (checkpoints (sent st)). ckpt_ok est (segments st @ map seg_to_dict ss) np"
  shows "\<forall>np \<in> set (checkpoints (sent (flush_loop cfg ok req est ss st))).
           ckpt_ok est (segments st @ map seg_to_dict ss) np"
  using assms
proof (induction ss arbitrary: st)
  case Nil
  then show ?case by simp
next
  case (Cons s ss)
  let ?st' = "append_and_flush cfg ok req est s st"
  have segs: "segments ?st' @ map seg_to_dict ss = segments st @ map seg_to_dict (s # ss)"
    by (simp add: segments_append_and_flush)
  have "\<forall>np \<in> set (checkpoints (sent ?st')). ckpt_ok est (segments st @ map seg_to_dict (s # ss)) np"
    using checkpoints_step_pct [of cfg ok req est s st] Cons.prems
      ckpt_ok_new [of est "segments st" "seg_to_dict s" "map seg_to_dict ss"]
    by auto
  then have "\<forall>np \<in> set (checkpoints (sent ?st')). ckpt_ok est (segments ?st' @ map seg_to_dict ss) np"
    by (simp only: segs)
  then have "\<forall>np \<in> set (checkpoints (sent (flush_loop cfg ok req est ss ?st'))).
           ckpt_ok est (segments ?st' @ map seg_to_dict ss) np"
    by (rule Cons.IH)
  then show ?case by (simp only: segs flush_loop.simps)
qed

lemma pct_mono: "0 < est \<Longrightarrow> a \<le> b \<Longrightarrow> pct est a \<le> pct est b"
proof -
  assume est: "0 < est" and ab: "a \<le> b"
  from ab est have "a / est \<le> b / est" by (simp add: divide_right_mono)
  then have "fl (a / est) \<le> fl (b / est)" by (rule fl_mono)
  then have "fl (a / est) * 100 \<le> fl (b / est) * 100" by (rule mult_right_mono) simp
  then have "fl (fl (a / est) * 100) \<le> fl (fl (b / est) * 100)" by (rule fl_mono)
  then have "py_int (fl (fl (a / est) * 100)) \<le> py_int (fl (fl (b / est) * 100))"
    by (rule py_int_mono)
  then show ?thesis by (simp add: pct_def min_def)
qed

lemma offset_mono: "s_start a \<le> s_start b \<Longrightarrow> offset (seg_to_dict a) \<le> offset (seg_to_dict b)"
  by (simp add: seg_to_dict_def py_round_mono)

lemma sorted_loop:
  assumes est: "0 < est"
    and "sorted (map s_start ss)"
    and "sorted (map snd (checkpoints (sent st)))"
    and "\<forall>np \<in> set (checkpoints (sent st)). \<forall>s \<in> set ss. snd np \<le> pct est (offset (seg_to_dict s))"
  shows "sorted (map snd (checkpoints (sent (flush_loop cfg ok req est ss st))))"
  using assms(2-)
proof (induction ss arbitrary: st)
  case Nil
  then show ?case by simp
next
  case (Cons s ss)
  let ?st' = "append_and_flush cfg ok req est s st"
  let ?new = "(length (segments st) + 1, pct est (offset (seg_to_dict s)))"
  from Cons.prems(1) have ss: "sorted (map s_start ss)" and le: "\<forall>s' \<in> set ss. s_start s \<le> s_start s'"
    by simp_all
  have new: "\<forall>s' \<in> set ss. pct est (offset (seg_to_dict s)) \<le> pct est (offset (seg_to_dict s'))"
    using le est by (auto intro: pct_mono offset_mono)
  from Cons.prems(3) have old_s: "\<forall>np \<in> set (checkpoints (sent st)). snd np \<le> pct est (offset (seg_to_dict s))"
    and old_ss: "\<forall>np \<in> set (checkpoints (sent st)). \<forall>s' \<in> set ss. snd np \<le> pct est (offset (seg_to_dict s'))"
    by simp_all
  have "sorted (map snd (checkpoints (sent ?st'))) \<and>
        (\<forall>np \<in> set (checkpoints (sent ?st')). \<forall>s' \<in> set ss. snd np \<le> pct est (offset (seg_to_dict s')))"
  proof (cases "checkpoints (sent ?st') = checkpoints (sent st)")
    case True
    with Cons.prems(2) old_ss show ?thesis by simp
  next
    case False
    with checkpoints_step_pct [of cfg ok req est s st]
    have eq: "checkpoints (sent ?st') = checkpoints (sent st) @ [?new]" by blast
    have "sorted (map snd (checkpoints (sent st) @ [?new]))"
      using Cons.prems(2) old_s by (simp add: sorted_append)
    moreover have "\<forall>np \<in> set (checkpoints (sent st) @ [?new]). \<forall>s' \<in> set ss.
        snd np \<le> pct est (offset (seg_to_dict s'))"
      using old_ss new by auto
    ultimately show ?thesis by (simp only: eq)
  qed
  then show ?case using Cons.IH [OF ss] by simp
qed

section \<open>The requests of a whole job\<close>

lemma checkpoints_stage_report: "checkpoints (stage_report cfg req) = []"
  by (simp add: stage_report_def supabase_heartbeat_def checkpoints_def)

lemma checkpoints_final_flush:
  "checkpoints (final_flush cfg ok vid segs cs) = checkpoints cs"
  by (simp add: final_flush_def supabase_upsert_segments_def Let_def checkpoints_def)

lemma progressive_try_checkpoints:
  "checkpoints (fst (snd (progressive_try cfg w req sv))) = [] \<or>
   (\<exists>t. whisper w = Inr t \<and>
      checkpoints (fst (snd (progressive_try cfg w req sv))) =
      checkpoints (sent (flush_loop cfg (urlopen_ok w) req (estimated_duration t) (segs_gen t)
                           (fresh (stage_report cfg req)))))"
proof (cases "download_audio (ytdlp w)")
  case (Inl e)
  then show ?thesis by (simp add: progressive_try_def checkpoints_def)
next
  case (Inr p)
  show ?thesis
  proof (cases "whisper w")
    case (Inl m)
    with Inr show ?thesis
      using checkpoints_stage_report [of cfg req]
      by (simp add: progressive_try_def Let_def stage_report_def)
  next
    case wh: (Inr t)
    show ?thesis
    proof (cases "gen_raises t")
      case None
      with Inr wh show ?thesis
        by (simp add: progressive_try_def Let_def checkpoints_final_flush fresh_def stage_report_def)
    next
      case (Some m)
      with Inr wh show ?thesis
        by (simp add: progressive_try_def Let_def fresh_def stage_report_def)
    qed
  qed
qed

lemma progressive_calls:
  "fst (snd (transcribe_progressive cfg w req sv)) = [] \<or>
   (\<exists>sv'. fst (snd (transcribe_progressive cfg w req sv)) =
           fst (snd (progressive_try cfg w req sv')))"
proof (cases "mkdtemp (mkdtemp_result w) (tmp sv)")
  case (Inl e)
  then show ?thesis by (simp add: transcribe_progressive_def Let_def)
next
  case (Inr d)
  then show ?thesis
    by (auto simp add: transcribe_progressive_def Let_def split_beta)
qed

lemma progressive_checkpoints:
  "checkpoints (fst (snd (transcribe_progressive cfg w req sv))) = [] \<or>
   (\<exists>t. whisper w = Inr t \<and>
      checkpoints (fst (snd (transcribe_progressive cfg w req sv))) =
      checkpoints (sent (flush_loop cfg (urlopen_ok w) req (estimated_duration t) (segs_gen t)
                           (fresh (stage_report cfg req)))))"
proof -
  from progressive_calls [of cfg w req sv]
  consider "fst (snd (transcribe_progressive cfg w req sv)) = []"
    | sv' where "fst (snd (transcribe_progressive cfg w req sv)) =
                 fst (snd (progressive_try cfg w req sv'))"
    by blast
  then show ?thesis
  proof cases
    case 1
    then show ?thesis by (simp add: checkpoints_def)
  next
    case 2
    with progressive_try_checkpoints [of cfg w req sv'] show ?thesis by simp
  qed
qed

lemma upserts_final_flush:
  "configured cfg \<Longrightarrow>
   upserts (final_flush cfg ok vid segs cs) =
     upserts cs @ (if segs = [] then [] else [(Final, segs)])"
  by (simp add: final_flush_def supabase_upsert_segments_def Let_def upserts_def configured_def)

lemma upserts_loop_periodic:
  assumes cfg: "configured cfg"
    and "\<forall>p \<in> set (upserts (sent st)). fst p = Periodic"
  shows "\<forall>p \<in> set (upserts (sent (flush_loop cfg ok req est ss st))). fst p = Periodic"
  using assms(2)
proof (induction ss arbitrary: st)
  case Nil
  then show ?case by simp
next
  case (Cons s ss)
  have "\<forall>p \<in> set (upserts (sent (append_and_flush cfg ok req est s st))). fst p = Periodic"
    using Cons.prems by (auto simp add: upserts_step [OF cfg])
  then show ?case using Cons.IH by simp
qed

lemma upserts_announced: "upserts (announced req) = []"
  by (simp add: announced_def upserts_def)

lemma map_attempt_at_snoc:
  "map (attempt_at (segs @ [x])) [20..<Suc (length segs)] =
   map (attempt_at segs) [20..<Suc (length segs)]"
proof (rule map_cong [OF refl])
  fix k assume "k \<in> set [20..<Suc (length segs)]"
  then have "k \<le> length segs" by auto
  then show "attempt_at (segs @ [x]) k = attempt_at segs k" by (simp add: attempt_at_def)
qed

text \<open>
  With a store that never answers, \<open>last_flush_count\<close> stays 0, so from the 20th segment on
  every segment triggers another attempt with the whole list.
\<close>

lemma all_failed_invariant:
  assumes cfg: "configured cfg" and ko: "\<And>i. \<not> ok i"
  shows "last_flush_count (flush_loop cfg ok req est ss (fresh cs)) = 0 \<and>
         upserts (sent (flush_loop cfg ok req est ss (fresh cs))) =
           upserts cs @ map (attempt_at (map seg_to_dict ss)) [20..<Suc (length ss)]"
proof (induction ss rule: rev_induct)
  case Nil
  show ?case by (simp add: fresh_def)
next
  case (snoc s ss)
  define st where "st = flush_loop cfg ok req est ss (fresh cs)"
  define n where "n = length ss"
  define segs where "segs = map seg_to_dict ss"
  define x where "x = seg_to_dict s"
  have len: "length segs = n" by (simp add: segs_def n_def)
  have sg: "segments st = segs"
    unfolding st_def segs_def by (rule segments_flush_loop_fresh)
  from snoc have lfc: "last_flush_count st = 0"
    and ups: "upserts (sent st) = upserts cs @ map (attempt_at segs) [20..<Suc n]"
    by (simp_all add: st_def n_def segs_def)
  have th: "threshold st = (20 \<le> Suc n)"
    by (simp add: threshold_def flush_interval_def sg len lfc)
  have old: "map (attempt_at (segs @ [x])) [20..<Suc n] = map (attempt_at segs) [20..<Suc n]"
    using map_attempt_at_snoc [of segs x] by (simp only: len)
  have lf: "last_flush_count (append_and_flush cfg ok req est s st) = 0"
  proof (cases "threshold st")
    case True
    then show ?thesis by (simp add: step_failed [OF cfg True ko] lfc)
  next
    case False
    then show ?thesis by (simp add: step_quiet [OF False] lfc)
  qed
  have up: "upserts (sent (append_and_flush cfg ok req est s st)) =
       upserts cs @ map (attempt_at (segs @ [x])) [20..<Suc (Suc n)]"
  proof (cases "20 \<le> Suc n")
    case True
    then have u: "[20..<Suc (Suc n)] = [20..<Suc n] @ [Suc n]" by simp
    have full: "attempt_at (segs @ [x]) (Suc n) = (Periodic, segs @ [x])"
      by (simp add: attempt_at_def len)
    from True th have t: "threshold st" by simp
    have "upserts (sent (append_and_flush cfg ok req est s st)) =
        upserts (sent st) @ [(Periodic, segs @ [x])]"
      by (simp add: upserts_step [OF cfg] t sg x_def)
    also have "\<dots> = upserts cs @
        (map (attempt_at (segs @ [x])) [20..<Suc n] @ [attempt_at (segs @ [x]) (Suc n)])"
      by (simp only: ups old full append_assoc)
    also have "\<dots> = upserts cs @ map (attempt_at (segs @ [x])) [20..<Suc (Suc n)]"
      by (simp only: u map_append list.map)
    finally show ?thesis .
  next
    case False
    then have e: "[20..<Suc (Suc n)] = []" "[20..<Suc n] = []" by simp_all
    from False th have t: "\<not> threshold st" by simp
    have "upserts (sent (append_and_flush cfg ok req est s st)) = upserts (sent st)"
      by (simp add: step_quiet [OF t])
    then show ?thesis by (simp only: ups e list.map)
  qed
  show ?case
    unfolding flush_loop_snoc using lf up
    by (simp add: st_def n_def segs_def x_def)
qed

section \<open>The startup sweep, cleanup and entry validation\<close>

lemma fl_6400: "fl 6400 = 6400"
  by (subst fl_eval [where e = 12]) (simp_all add: pow2_def round_half_even_def Let_def)

lemma swept_orphan:
  "swept hf (fl (now - 3600)) p = (orphan hf now p \<and> kind p = Directory \<and> removable p)"
  by (auto simp: swept_def orphan_def)

lemma fold_sweep_one_filter:
  "fold (sweep_one hf c) ps ents =
     filter (\<lambda>q. \<not> (\<exists>p \<in> set ps. swept hf c p \<and> name p = name q)) ents"
proof (induction ps arbitrary: ents)
  case Nil
  show ?case by simp
next
  case (Cons p ps)
  have "fold (sweep_one hf c) (p # ps) ents = fold (sweep_one hf c) ps (sweep_one hf c p ents)"
    by simp
  also have "\<dots> = filter (\<lambda>q. \<not> (\<exists>p' \<in> set ps. swept hf c p' \<and> name p' = name q))
                      (sweep_one hf c p ents)"
    by (rule Cons.IH)
  also have "\<dots> = filter (\<lambda>q. \<not> (\<exists>p' \<in> set (p # ps). swept hf c p' \<and> name p' = name q)) ents"
    by (auto simp: sweep_one_swept intro: filter_cong)
  finally show ?case .
qed

text \<open>
  Claim C9, as the code has it. The startup sweep deletes exactly the directories of
  \<open>/tmp\<close> that match the naming pattern of the service (the name starts with \<open>whisperx-\<close>
  and has at least 15 characters, as the sweep tests it), are not the exact model-cache
  path, were last modified before the cutoff \<open>time.time() - 3600\<close>, and that \<open>rmtree\<close> is
  able to delete; every other entry is left as it was, in its place. The names in a
  directory are distinct.
\<close>

theorem cleanup_orphan_temps_exact:
  assumes "distinct (map name ents)"
  shows "cleanup_orphan_temps hf_home now ents =
     filter (\<lambda>p. \<not> (orphan hf_home now p \<and> kind p = Directory \<and> removable p)) ents"
proof -
  have "cleanup_orphan_temps hf_home now ents =
      filter (\<lambda>q. \<not> (\<exists>p \<in> set (glob_whisperx ents). swept hf_home (fl (now - 3600)) p \<and> name p = name q)) ents"
    by (simp add: cleanup_orphan_temps_def fold_sweep_one_filter)
  also have "\<dots> = filter (\<lambda>q. \<not> swept hf_home (fl (now - 3600)) q) ents"
    by (rule filter_cong [OF refl]) (simp add: glob_swept [OF assms])
  finally show ?thesis by (simp only: swept_orphan)
qed

theorem cleanup_orphan_temps_exact_witness:
  "distinct (map name tmp0) \<and>
   map name (cleanup_orphan_temps ''/tmp/whisperx-hf-cache'' 10000 tmp0) =
     [''whisperx-ijklmnop'', ''whisperx-hf-cache'', ''whisperx-old'', ''pip-build-env'',
      ''whisperx-qrstuvwx'', ''whisperx-yzabcdef'', ''whisperx-file1234'',
      ''whisperx-link5678'', ''whisperx-rootonly'']"
proof -
  have d: "distinct (map name tmp0)" by (simp add: tmp0_def tmp_entry_def)
  from cleanup_orphan_temps_exact [OF d, of "''/tmp/whisperx-hf-cache''" 10000]
  show ?thesis using d
    by (simp add: tmp0_def tmp_entry_def orphan_def looks_like_tempdir_def startswith_def fl_6400)
qed

text \<open>
  Claim C9 as stated fails for an entry that is not a directory and for a directory the
  process may not delete: both have the name of a scratch directory, neither is the model
  cache, both are nine thousand seconds old, and both are still there after the sweep.
\<close>

theorem cleanup_orphan_temps_exact_counterexample:
  "orphan ''/tmp/whisperx-hf-cache'' 10000
     (tmp_entry ''whisperx-file1234'' (Some 1000) RegularFile True) \<and>
   orphan ''/tmp/whisperx-hf-cache'' 10000
     (tmp_entry ''whisperx-rootonly'' (Some 1000) Directory False) \<and>
   cleanup_orphan_temps ''/tmp/whisperx-hf-cache'' 10000
     [tmp_entry ''whisperx-file1234'' (Some 1000) RegularFile True,
      tmp_entry ''whisperx-rootonly'' (Some 1000) Directory False] =
     [tmp_entry ''whisperx-file1234'' (Some 1000) RegularFile True,
      tmp_entry ''whisperx-rootonly'' (Some 1000) Directory False]"
  by (simp add: cleanup_orphan_temps_def glob_whisperx_def sweep_one_def rmtree_def
        tmp_entry_def orphan_def looks_like_tempdir_def startswith_def fl_6400)

text \<open>
  Once \<open>mkdtemp\<close> has returned a directory, both endpoints release the guard and delete
  the directory on every path, whatever the download, the speech model and the store do:
  the \<open>finally\<close> clause covers the whole \<open>try\<close> block.
\<close>

lemma transcribe_cleans_up:
  assumes len: "length (video_id req) = 11" and free: "\<not> gpu_lock sv"
    and mk: "mkdtemp (mkdtemp_result w) (tmp sv) = Inr d"
  shows "\<not> gpu_lock (snd (transcribe w req sv)) \<and> d \<notin> tmp (snd (transcribe w req sv)) \<and>
         currently_processing (snd (transcribe w req sv)) = None"
proof -
  from len have ne: "video_id req \<noteq> []" by auto
  let ?sv1 = "sv\<lparr>gpu_lock := True, currently_processing := Some (video_id req),
                  tmp := insert d (tmp sv)\<rparr>"
  obtain r sv2 where t: "transcribe_try w ?sv1 = (r, sv2)"
    by (cases "transcribe_try w ?sv1")
  have "transcribe w req sv = (reraise r, cleanup d sv2)"
    using len ne free mk t by (simp add: transcribe_def Let_def)
  then show ?thesis by (simp add: cleanup_def)
qed

lemma transcribe_progressive_cleans_up:
  assumes cfg: "configured cfg"
    and len: "length (video_id req) = 11" and free: "\<not> gpu_lock sv"
    and mk: "mkdtemp (mkdtemp_result w) (tmp sv) = Inr d"
  shows "\<not> gpu_lock (snd (snd (transcribe_progressive cfg w req sv))) \<and>
         d \<notin> tmp (snd (snd (transcribe_progressive cfg w req sv))) \<and>
         currently_processing (snd (snd (transcribe_progressive cfg w req sv))) = None"
proof -
  from len have ne: "video_id req \<noteq> []" by auto
  from cfg have u: "\<not> unset (SUPABASE_URL cfg)" "\<not> unset (SUPABASE_KEY cfg)"
    by (simp_all add: configured_def)
  let ?sv1 = "sv\<lparr>gpu_lock := True, currently_processing := Some (video_id req),
                  tmp := insert d (tmp sv)\<rparr>"
  obtain r cs sv2 where t: "progressive_try cfg w req ?sv1 = (r, cs, sv2)"
    by (cases "progressive_try cfg w req ?sv1")
  have "transcribe_progressive cfg w req sv = (reraise r, cs, cleanup d sv2)"
    using u len ne free mk t by (simp add: transcribe_progressive_def Let_def)
  then show ?thesis by (simp add: cleanup_def)
qed

text \<open>
  Claim C1. On every exit path after the guard has been acquired, the guard is released
  and the scratch directory is deleted before the response is returned, also when setup
  was only partial. The source acquires the lock, then calls \<open>tempfile.mkdtemp\<close>, and
  only then enters the \<open>try\<close> block whose \<open>finally\<close> clause releases the lock. When
  \<open>mkdtemp\<close> raises, the exception leaves either endpoint with the lock still held and
  \<open>_currently_processing\<close> still set, and the next request is answered 503.
\<close>

theorem guard_held_after_mkdtemp_raises:
  "transcribe tmp_full req0 idle =
     (Inl (Exception ''OSError''),
      idle\<lparr>gpu_lock := True, currently_processing := Some ''dQw4w9WgXcQ''\<rparr>) \<and>
   transcribe_progressive cfg0 tmp_full req0 idle =
     (Inl (Exception ''OSError''), [],
      idle\<lparr>gpu_lock := True, currently_processing := Some ''dQw4w9WgXcQ''\<rparr>) \<and>
   fst (transcribe (studio all_ok (speech 1)) req0
          (snd (transcribe tmp_full req0 idle))) = Inl (HTTPException 503 GpuBusy)"
  by (simp add: transcribe_def transcribe_progressive_def tmp_full_def studio_def req0_def
        idle_def cfg0_def unset_def mkdtemp_def Let_def)

text \<open>
  Claim C2. A request whose identifier is empty or not exactly 11 characters long is
  rejected by both endpoints with the service state, the guard included, unchanged and
  nothing sent; on the progressive endpoint the same holds, with status 500, when the
  credentials of the store are not configured.
\<close>

theorem entry_validation:
  "(length (video_id req) \<noteq> 11 \<longrightarrow>
      transcribe w req sv = (Inl (HTTPException 400 InvalidVideoId), sv) \<and>
      (\<exists>e. transcribe_progressive cfg w req sv = (Inl e, [], sv))) \<and>
   (unset (SUPABASE_URL cfg) \<or> unset (SUPABASE_KEY cfg) \<longrightarrow>
      transcribe_progressive cfg w req sv =
        (Inl (HTTPException 500 SupabaseNotConfigured), [], sv))"
  by (auto simp: transcribe_def transcribe_progressive_def Let_def)

theorem entry_validation_witness:
  "length (video_id (req0\<lparr>video_id := ''tooshort''\<rparr>)) \<noteq> 11 \<and>
   transcribe (studio (\<lambda>i. True) (speech 1)) (req0\<lparr>video_id := ''tooshort''\<rparr>) idle =
     (Inl (HTTPException 400 InvalidVideoId), idle) \<and>
   unset (SUPABASE_URL no_cfg) \<and>
   transcribe_progressive no_cfg (studio (\<lambda>i. True) (speech 1)) req0 idle =
     (Inl (HTTPException 500 SupabaseNotConfigured), [], idle)"
proof -
  have a: "length (video_id (req0\<lparr>video_id := ''tooshort''\<rparr>)) \<noteq> 11" by simp
  have b: "unset (SUPABASE_URL no_cfg)" by (simp add: no_cfg_def unset_def)
  from entry_validation [of "req0\<lparr>video_id := ''tooshort''\<rparr>" "studio (\<lambda>i. True) (speech 1)" idle no_cfg]
    entry_validation [of req0 "studio (\<lambda>i. True) (speech 1)" idle no_cfg]
  show ?thesis using a b by blast
qed

section \<open>The flush threshold\<close>

lemma job_runs_studio:
  "job_runs cfg0 (studio ok (speech n)) req0 idle ''/tmp/whisperx-abcdefgh'' (speech n)"
  by (simp add: job_runs_def configured_def cfg0_def unset_def studio_def req0_def idle_def
        mkdtemp_def download_audio_def downloaded_def MAX_AUDIO_BYTES_def speech_def)

lemma length_speech: "length (segs_gen (speech n)) = n"
  by (simp add: speech_def)

lemma sizes_40:
  "sizes [periodic_at (map seg_to_dict (segs_gen (speech 40))) 1,
          periodic_at (map seg_to_dict (segs_gen (speech 40))) 2,
          (Final, map seg_to_dict (segs_gen (speech 40)))] =
     [(Periodic, 20), (Periodic, 40), (Final, 40)]"
  by (simp add: sizes_def periodic_at_def flush_interval_def length_speech)

lemma filter_attempts:
  "filter (\<lambda>p. fst p = Periodic) (map (attempt_at segs) ks @ [(Final, segs')]) =
     map (attempt_at segs) ks"
  by (induction ks) (simp_all add: attempt_at_def)

lemma count_39:
  "length (filter (\<lambda>p. fst p = Periodic)
     (map (attempt_at segs) [20..<Suc 39] @ [(Final, segs)])) = 20"
proof -
  have "length (map (attempt_at segs) [20..<Suc 39]) = Suc 39 - 20"
    by (simp only: length_map length_upt)
  then show ?thesis by (simp only: filter_attempts)
qed

lemma length_st19: "length (segments st19) = 19"
  by (simp only: st19_def flush_state.simps length_map length_upt)

lemma upserts_all_ok:
  assumes run: "job_runs cfg w req sv d t" and ok: "\<And>i. urlopen_ok w i"
  shows "upserts (fst (snd (transcribe_progressive cfg w req sv))) =
     map (periodic_at (map seg_to_dict (segs_gen t))) [1..<Suc (length (segs_gen t) div 20)] @
     (if segs_gen t = [] then [] else [(Final, map seg_to_dict (segs_gen t))])"
proof -
  from run have cfg: "configured cfg" by (simp add: job_runs_def)
  show ?thesis
    using all_ok_invariant [OF cfg ok, where req = req and est = "estimated_duration t"
        and ss = "segs_gen t" and ?sent0.0 = "announced req"]
    by (simp add: progressive_run [OF run] upserts_final_flush [OF cfg] upserts_announced)
qed

lemma upserts_all_failed:
  assumes run: "job_runs cfg w req sv d t" and ko: "\<And>i. \<not> urlopen_ok w i"
  shows "upserts (fst (snd (transcribe_progressive cfg w req sv))) =
     map (attempt_at (map seg_to_dict (segs_gen t))) [20..<Suc (length (segs_gen t))] @
     (if segs_gen t = [] then [] else [(Final, map seg_to_dict (segs_gen t))])"
proof -
  from run have cfg: "configured cfg" by (simp add: job_runs_def)
  show ?thesis
    using all_failed_invariant [OF cfg ko, where req = req and est = "estimated_duration t"
        and ss = "segs_gen t" and cs = "announced req"]
    by (simp add: progressive_run [OF run] upserts_final_flush [OF cfg] upserts_announced)
qed

lemma upt_1_2: "[1..<Suc 1] = [1]" by simp

lemma upt_1_3: "[1..<Suc 2] = [1, 2]"
proof -
  have "[1..<Suc 2] = [1..<2] @ [2]" by (rule upt_Suc_append) simp
  also have "[1..<2] = [1::nat]" by (simp add: numeral_2_eq_2)
  finally show ?thesis by simp
qed

text \<open>
  Claim C3, as the code has it. With the credentials set, and whatever the store answers
  now or has answered before, appending a segment sends an upsert of the whole list
  exactly when the count of segments less \<open>last_flush_count\<close> is at least 20. When
  every upsert of a job succeeds, a stream of 39 segments gives one periodic checkpoint,
  of the first 20 segments, and the final checkpoint of all 39; a stream of 40 segments
  gives periodic checkpoints at 20 and at 40 and then the final checkpoint of all 40.
\<close>

theorem flush_threshold:
  "(configured cfg \<longrightarrow>
      upserts (sent (append_and_flush cfg ok req est s st)) =
        upserts (sent st) @
          (if int flush_interval \<le> int (length (segments st @ [seg_to_dict s])) - int (last_flush_count st)
           then [(Periodic, segments st @ [seg_to_dict s])] else [])) \<and>
   (job_runs cfg w req sv d t \<and> (\<forall>i. urlopen_ok w i) \<longrightarrow>
      (length (segs_gen t) = 39 \<longrightarrow>
         upserts (fst (snd (transcribe_progressive cfg w req sv))) =
           [(Periodic, take 20 (map seg_to_dict (segs_gen t))),
            (Final, map seg_to_dict (segs_gen t))]) \<and>
      (length (segs_gen t) = 40 \<longrightarrow>
         upserts (fst (snd (transcribe_progressive cfg w req sv))) =
           [(Periodic, take 20 (map seg_to_dict (segs_gen t))),
            (Periodic, map seg_to_dict (segs_gen t)),
            (Final, map seg_to_dict (segs_gen t))]))"
proof (intro conjI impI)
  assume cfg: "configured cfg"
  show "upserts (sent (append_and_flush cfg ok req est s st)) =
        upserts (sent st) @
          (if int flush_interval \<le> int (length (segments st @ [seg_to_dict s])) - int (last_flush_count st)
           then [(Periodic, segments st @ [seg_to_dict s])] else [])"
    by (simp add: upserts_step [OF cfg] threshold_def)
next
  assume a: "job_runs cfg w req sv d t \<and> (\<forall>i. urlopen_ok w i)"
  then have run: "job_runs cfg w req sv d t" and ok': "\<And>i. urlopen_ok w i" by simp_all
  assume len: "length (segs_gen t) = 39"
  then have ne: "segs_gen t \<noteq> []" by auto
  have d: "(39::nat) div 20 = 1" by simp
  show "upserts (fst (snd (transcribe_progressive cfg w req sv))) =
              [(Periodic, take 20 (map seg_to_dict (segs_gen t))),
               (Final, map seg_to_dict (segs_gen t))]"
    by (simp only: upserts_all_ok [OF run ok'] len d ne upt_1_2 if_False list.map append.simps
          periodic_at_def flush_interval_def mult_1_right)
next
  assume a: "job_runs cfg w req sv d t \<and> (\<forall>i. urlopen_ok w i)"
  then have run: "job_runs cfg w req sv d t" and ok': "\<And>i. urlopen_ok w i" by simp_all
  assume len: "length (segs_gen t) = 40"
  then have ne: "segs_gen t \<noteq> []" by auto
  have d: "(40::nat) div 20 = 2" by simp
  have full: "take (20 * 2) (map seg_to_dict (segs_gen t)) = map seg_to_dict (segs_gen t)"
    by (simp add: len)
  show "upserts (fst (snd (transcribe_progressive cfg w req sv))) =
              [(Periodic, take 20 (map seg_to_dict (segs_gen t))),
               (Periodic, map seg_to_dict (segs_gen t)),
               (Final, map seg_to_dict (segs_gen t))]"
    by (simp only: upserts_all_ok [OF run ok'] len d ne upt_1_3 if_False list.map append.simps
          periodic_at_def flush_interval_def mult_1_right full)
qed

theorem flush_threshold_witness:
  "configured cfg0 \<and>
   int flush_interval \<le> int (length (segments st19 @ [seg_to_dict (sec 19)])) - int (last_flush_count st19) \<and>
   upserts (sent (append_and_flush cfg0 store_down req0 600 (sec 19) st19)) =
     [(Periodic, segments st19 @ [seg_to_dict (sec 19)])] \<and>
   job_runs cfg0 (studio all_ok (speech 39)) req0 idle ''/tmp/whisperx-abcdefgh'' (speech 39) \<and>
   (\<forall>i. urlopen_ok (studio all_ok (speech 39)) i) \<and>
   length (segs_gen (speech 39)) = 39 \<and>
   upserts (fst (snd (transcribe_progressive cfg0 (studio all_ok (speech 39)) req0 idle))) =
     [(Periodic, take 20 (map seg_to_dict (segs_gen (speech 39)))),
      (Final, map seg_to_dict (segs_gen (speech 39)))]"
proof -
  have run: "job_runs cfg0 (studio all_ok (speech 39)) req0 idle ''/tmp/whisperx-abcdefgh'' (speech 39)"
    by (rule job_runs_studio)
  then have cfg: "configured cfg0" by (simp add: job_runs_def)
  have ok: "\<forall>i. urlopen_ok (studio all_ok (speech 39)) i" by (simp add: studio_def all_ok_def)
  have len: "length (segs_gen (speech 39)) = 39" by (rule length_speech)
  have th: "int flush_interval \<le> int (length (segments st19 @ [seg_to_dict (sec 19)])) - int (last_flush_count st19)"
    by (simp add: length_st19 flush_interval_def) (simp add: st19_def)
  have old: "upserts (sent st19) = []" by (simp add: st19_def upserts_def)
  from flush_threshold [where cfg = cfg0 and ok = store_down and req = req0 and est = 600
      and s = "sec 19" and st = st19 and w = "studio all_ok (speech 39)" and sv = idle
      and d = "''/tmp/whisperx-abcdefgh''" and t = "speech 39"]
  have "upserts (sent (append_and_flush cfg0 store_down req0 600 (sec 19) st19)) =
          upserts (sent st19) @ [(Periodic, segments st19 @ [seg_to_dict (sec 19)])]"
    and "upserts (fst (snd (transcribe_progressive cfg0 (studio all_ok (speech 39)) req0 idle))) =
     [(Periodic, take 20 (map seg_to_dict (segs_gen (speech 39)))),
      (Final, map seg_to_dict (segs_gen (speech 39)))]"
    using cfg th run ok len by (simp_all only: if_True simp_thms)
  then show ?thesis using cfg th run ok len by (simp only: old append_Nil simp_thms)
qed

text \<open>
  Claim C3 as stated fails twice. With 40 segments and a store that answers, the 40th
  segment triggers a second periodic checkpoint before the final one. With 39 segments
  and a store that is down, every segment from the 20th on triggers an attempt: 20
  periodic upserts, not one.
\<close>

theorem flush_threshold_counterexample:
  "sizes (upserts (fst (snd (transcribe_progressive cfg0 (studio all_ok (speech 40)) req0 idle)))) =
     [(Periodic, 20), (Periodic, 40), (Final, 40)] \<and>
   count_site Periodic
     (upserts (fst (snd (transcribe_progressive cfg0 (studio store_down (speech 39)) req0 idle)))) = 20"
proof
  have run: "job_runs cfg0 (studio all_ok (speech 40)) req0 idle ''/tmp/whisperx-abcdefgh'' (speech 40)"
    by (rule job_runs_studio)
  have ok: "\<And>i. urlopen_ok (studio all_ok (speech 40)) i" by (simp add: studio_def all_ok_def store_down_def)
  have d: "(40::nat) div 20 = 2" by simp
  have ne: "segs_gen (speech 40) \<noteq> []" using length_speech [of 40] by auto
  have eq: "upserts (fst (snd (transcribe_progressive cfg0 (studio all_ok (speech 40)) req0 idle))) =
      [periodic_at (map seg_to_dict (segs_gen (speech 40))) 1,
       periodic_at (map seg_to_dict (segs_gen (speech 40))) 2,
       (Final, map seg_to_dict (segs_gen (speech 40)))]"
    by (simp only: upserts_all_ok [OF run ok] length_speech d ne upt_1_3 if_False list.map append.simps)
  show "sizes (upserts (fst (snd (transcribe_progressive cfg0 (studio all_ok (speech 40)) req0 idle)))) =
     [(Periodic, 20), (Periodic, 40), (Final, 40)]"
    unfolding eq by (rule sizes_40)
next
  have run: "job_runs cfg0 (studio store_down (speech 39)) req0 idle ''/tmp/whisperx-abcdefgh'' (speech 39)"
    by (rule job_runs_studio)
  have ko: "\<And>i. \<not> urlopen_ok (studio store_down (speech 39)) i" by (simp add: studio_def all_ok_def store_down_def)
  have ne: "segs_gen (speech 39) \<noteq> []" using length_speech [of 39] by auto
  have eq: "upserts (fst (snd (transcribe_progressive cfg0 (studio store_down (speech 39)) req0 idle))) =
      map (attempt_at (map seg_to_dict (segs_gen (speech 39)))) [20..<Suc 39] @
      [(Final, map seg_to_dict (segs_gen (speech 39)))]"
    by (simp only: upserts_all_failed [OF run ko] length_speech ne if_False)
  show "count_site Periodic
     (upserts (fst (snd (transcribe_progressive cfg0 (studio store_down (speech 39)) req0 idle)))) = 20"
    unfolding eq count_site_def by (rule count_39)
qed

section \<open>The final checkpoint and failing checkpoints\<close>

lemma upserts_fresh_loop_periodic:
  assumes cfg: "configured cfg"
  shows "filter (\<lambda>p. fst p = Final)
           (upserts (sent (flush_loop cfg ok req est ss (fresh (announced req))))) = []"
proof -
  have "\<forall>p \<in> set (upserts (sent (fresh (announced req) :: flush_state))). fst p = Periodic"
    by (simp add: fresh_def upserts_announced)
  then have "\<forall>p \<in> set (upserts (sent (flush_loop cfg ok req est ss (fresh (announced req))))).
      fst p = Periodic"
    by (rule upserts_loop_periodic [OF cfg])
  then show ?thesis by (auto simp: filter_empty_conv)
qed

text \<open>
  Claim C4, as the code has it. When the stream of a job is exhausted and has yielded at
  least one segment, exactly one final upsert is sent, it carries the whole list and it is
  the last upsert of the job, also when a periodic checkpoint has just sent the same list;
  when the stream yielded no segment, no final upsert is sent.
\<close>

theorem final_checkpoint:
  assumes run: "job_runs cfg w req sv d t"
  shows "filter (\<lambda>p. fst p = Final) (upserts (fst (snd (transcribe_progressive cfg w req sv)))) =
           (if segs_gen t = [] then [] else [(Final, map seg_to_dict (segs_gen t))]) \<and>
         (segs_gen t \<noteq> [] \<longrightarrow>
            last (upserts (fst (snd (transcribe_progressive cfg w req sv)))) =
              (Final, map seg_to_dict (segs_gen t)))"
proof -
  from run have cfg: "configured cfg" by (simp add: job_runs_def)
  have ups: "upserts (fst (snd (transcribe_progressive cfg w req sv))) =
      upserts (sent (flush_loop cfg (urlopen_ok w) req (estimated_duration t) (segs_gen t)
                 (fresh (announced req)))) @
      (if segs_gen t = [] then [] else [(Final, map seg_to_dict (segs_gen t))])"
    by (simp add: progressive_run [OF run] upserts_final_flush [OF cfg])
  show ?thesis
    unfolding ups by (simp add: upserts_fresh_loop_periodic [OF cfg])
qed

theorem final_checkpoint_witness:
  "job_runs cfg0 (studio (\<lambda>i. True) (speech 40)) req0 idle ''/tmp/whisperx-abcdefgh'' (speech 40) \<and>
   segs_gen (speech 40) \<noteq> [] \<and>
   filter (\<lambda>p. fst p = Final)
     (upserts (fst (snd (transcribe_progressive cfg0 (studio (\<lambda>i. True) (speech 40)) req0 idle)))) =
     [(Final, map seg_to_dict (segs_gen (speech 40)))] \<and>
   last (upserts (fst (snd (transcribe_progressive cfg0 (studio (\<lambda>i. True) (speech 40)) req0 idle)))) =
     (Final, map seg_to_dict (segs_gen (speech 40)))"
proof -
  have run: "job_runs cfg0 (studio (\<lambda>i. True) (speech 40)) req0 idle ''/tmp/whisperx-abcdefgh'' (speech 40)"
    by (rule job_runs_studio)
  have ne: "segs_gen (speech 40) \<noteq> []" using length_speech [of 40] by auto
  from final_checkpoint [OF run] ne run show ?thesis by simp
qed

text \<open>
  Claim C4 as stated fails for the empty stream: \<open>if segments:\<close> skips the final flush,
  and the only request of the job is the heartbeat of the transcription stage.
\<close>

theorem final_checkpoint_counterexample:
  "transcribe_progressive cfg0 (studio all_ok (speech 0)) req0 idle =
     (Inr (ProgressiveResponse [] 0 0),
      [Heartbeat ''job-1'' ''gpu-1'' (Some ''transcribing'') None None],
      idle\<lparr>transcription_count := 1\<rparr>)"
proof -
  have run: "job_runs cfg0 (studio all_ok (speech 0)) req0 idle ''/tmp/whisperx-abcdefgh'' (speech 0)"
    by (rule job_runs_studio)
  have e: "segs_gen (speech 0) = []" "info_duration (speech 0) = 0" by (simp_all add: speech_def)
  have "final_flush cfg0 (urlopen_ok (studio all_ok (speech 0))) (video_id req0)
          (map seg_to_dict (segs_gen (speech 0)))
          (sent (flush_loop cfg0 (urlopen_ok (studio all_ok (speech 0))) req0
                   (estimated_duration (speech 0)) (segs_gen (speech 0)) (fresh (announced req0)))) =
        [Heartbeat ''job-1'' ''gpu-1'' (Some ''transcribing'') None None]"
    by (simp add: e final_flush_def announced_def req0_def fresh_def)
  then show ?thesis
    unfolding progressive_run [OF run] by (simp add: e idle_def)
qed

lemma job_runs_urlopen_ok:
  "job_runs cfg (w\<lparr>urlopen_ok := f\<rparr>) req sv d t = job_runs cfg w req sv d t"
  by (simp add: job_runs_def)

lemma threshold_after_failure:
  "threshold (st :: flush_state) \<Longrightarrow> threshold \<lparr>segments = segments st @ [x],
      last_flush_count = last_flush_count st, sent = cs\<rparr>"
  by (simp add: threshold_def)

text \<open>
  Claim C5. A failing checkpoint never aborts the job or changes its result. Whatever
  the store answers, a job whose stream ends returns the success response with all
  segments, and leaves the service in the state it would have with a store that always
  answers. When a periodic upsert fails, the segment is kept, \<open>last_flush_count\<close> does not
  move, and the very next segment sends the whole list again.
\<close>

theorem checkpoint_failure_not_fatal:
  assumes run: "job_runs cfg w req sv d t"
  shows "fst (transcribe_progressive cfg w req sv) =
           Inr (ProgressiveResponse (map seg_to_dict (segs_gen t)) (info_duration t)
                  (length (segs_gen t))) \<and>
         snd (snd (transcribe_progressive cfg w req sv)) =
           snd (snd (transcribe_progressive cfg (w\<lparr>urlopen_ok := \<lambda>i. True\<rparr>) req sv)) \<and>
         (\<forall>st s est.
            int flush_interval \<le> int (length (segments st @ [seg_to_dict s])) - int (last_flush_count st) \<and>
            \<not> urlopen_ok w (length (filter is_upsert (sent st))) \<longrightarrow>
            segments (append_and_flush cfg (urlopen_ok w) req est s st) = segments st @ [seg_to_dict s] \<and>
            last_flush_count (append_and_flush cfg (urlopen_ok w) req est s st) = last_flush_count st \<and>
            (\<forall>s'. upserts (sent (append_and_flush cfg (urlopen_ok w) req est s'
                                  (append_and_flush cfg (urlopen_ok w) req est s st))) =
                   upserts (sent st) @
                     [(Periodic, segments st @ [seg_to_dict s]),
                      (Periodic, segments st @ [seg_to_dict s, seg_to_dict s'])]))"
proof (intro conjI allI impI)
  show "fst (transcribe_progressive cfg w req sv) =
           Inr (ProgressiveResponse (map seg_to_dict (segs_gen t)) (info_duration t)
                  (length (segs_gen t)))"
    by (simp add: progressive_run [OF run])
next
  from run have run': "job_runs cfg (w\<lparr>urlopen_ok := \<lambda>i. True\<rparr>) req sv d t"
    by (simp only: job_runs_urlopen_ok)
  show "snd (snd (transcribe_progressive cfg w req sv)) =
           snd (snd (transcribe_progressive cfg (w\<lparr>urlopen_ok := \<lambda>i. True\<rparr>) req sv))"
    by (simp add: progressive_run [OF run] progressive_run [OF run'])
next
  from run have cfg: "configured cfg" by (simp add: job_runs_def)
  fix st :: flush_state and s :: Segment and est :: real
  assume a: "int flush_interval \<le> int (length (segments st @ [seg_to_dict s])) - int (last_flush_count st) \<and>
            \<not> urlopen_ok w (length (filter is_upsert (sent st)))"
  then have th: "threshold st" and ko: "\<not> urlopen_ok w (length (filter is_upsert (sent st)))"
    by (simp_all add: threshold_def)
  note step = step_failed [where ok = "urlopen_ok w" and req = req and est = est and s = s,
                            OF cfg th ko]
  show "segments (append_and_flush cfg (urlopen_ok w) req est s st) = segments st @ [seg_to_dict s]"
    by (rule segments_append_and_flush)
  show "last_flush_count (append_and_flush cfg (urlopen_ok w) req est s st) = last_flush_count st"
    by (simp add: step)
  fix s'
  have th': "threshold (append_and_flush cfg (urlopen_ok w) req est s st)"
    unfolding step using th by (rule threshold_after_failure)
  show "upserts (sent (append_and_flush cfg (urlopen_ok w) req est s'
                                  (append_and_flush cfg (urlopen_ok w) req est s st))) =
                   upserts (sent st) @
                     [(Periodic, segments st @ [seg_to_dict s]),
                      (Periodic, segments st @ [seg_to_dict s, seg_to_dict s'])]"
    by (simp add: upserts_step [OF cfg] th th' segments_append_and_flush)
qed

section \<open>The progress percentage\<close>

theorem checkpoint_failure_not_fatal_witness:
  "job_runs cfg0 (studio (\<lambda>i. False) (speech 1)) req0 idle ''/tmp/whisperx-abcdefgh'' (speech 1) \<and>
   fst (transcribe_progressive cfg0 (studio (\<lambda>i. False) (speech 1)) req0 idle) =
     Inr (ProgressiveResponse (map seg_to_dict (segs_gen (speech 1))) (info_duration (speech 1))
            (length (segs_gen (speech 1)))) \<and>
   int flush_interval \<le> int (length (segments st19 @ [seg_to_dict (sec 19)])) - int (last_flush_count st19) \<and>
   \<not> urlopen_ok (studio (\<lambda>i. False) (speech 1)) (length (filter is_upsert (sent st19))) \<and>
   last_flush_count
     (append_and_flush cfg0 (urlopen_ok (studio (\<lambda>i. False) (speech 1))) req0 600 (sec 19) st19) =
     last_flush_count st19"
proof -
  have run: "job_runs cfg0 (studio (\<lambda>i. False) (speech 1)) req0 idle ''/tmp/whisperx-abcdefgh'' (speech 1)"
    by (rule job_runs_studio)
  have c1: "int flush_interval \<le> int (length (segments st19 @ [seg_to_dict (sec 19)])) - int (last_flush_count st19)"
    by (simp add: length_st19 flush_interval_def) (simp add: st19_def)
  have c2: "\<not> urlopen_ok (studio (\<lambda>i. False) (speech 1)) (length (filter is_upsert (sent st19)))"
    by (simp add: studio_def)
  from checkpoint_failure_not_fatal [OF run] c1 c2 run show ?thesis by blast
qed

lemma estimated_duration_pos: "0 \<le> info_duration t \<Longrightarrow> 0 < estimated_duration t"
  by (simp add: estimated_duration_def)

lemma pct_floor:
  assumes "0 < est" "0 \<le> off"
  shows "pct est off = \<lfloor>min 95 (fl (fl (off / est) * 100))\<rfloor>"
proof -
  from assms have "0 \<le> off / est" by simp
  then have "0 \<le> fl (off / est)" by (rule fl_nonneg)
  then have "0 \<le> fl (off / est) * 100" by simp
  then have "0 \<le> fl (fl (off / est) * 100)" by (rule fl_nonneg)
  then show ?thesis unfolding pct_def by (rule py_int_floor_min)
qed

lemma offset_nonneg: "0 \<le> s_start s \<Longrightarrow> 0 \<le> offset (seg_to_dict s)"
  by (simp add: seg_to_dict_def py_round_nonneg)

lemma checkpoints_fresh_loop:
  "\<forall>np \<in> set (checkpoints (sent (flush_loop cfg ok req est ss (fresh (stage_report cfg req'))))).
      ckpt_ok est (map seg_to_dict ss) np"
proof -
  have "\<forall>np \<in> set (checkpoints (sent (fresh (stage_report cfg req') :: flush_state))).
      ckpt_ok est (segments (fresh (stage_report cfg req')) @ map seg_to_dict ss) np"
    by (simp add: fresh_def checkpoints_stage_report)
  then have "\<forall>np \<in> set (checkpoints (sent (flush_loop cfg ok req est ss (fresh (stage_report cfg req'))))).
      ckpt_ok est (segments (fresh (stage_report cfg req')) @ map seg_to_dict ss) np"
    by (rule checkpoints_loop)
  then show ?thesis by (simp add: fresh_def)
qed

text \<open>
  Claim C6, as the code has it. Every progress report of a job is sent with a periodic
  checkpoint after some segment \<open>n\<close>, and its percentage is the floor of the minimum of
  95 and the float that the code computes: the offset of segment \<open>n\<close> divided by the
  estimated duration, rounded to a float, times 100, rounded to a float. The estimated
  duration is the duration the stream reports, or 600 when that is 0. Offsets and the
  duration are not negative, as for any audio; \<open>int\<close> truncates, which is the floor on
  such values.
\<close>

theorem progress_formula:
  assumes wh: "whisper w = Inr t"
    and nonneg: "\<forall>s \<in> set (segs_gen t). 0 \<le> s_start s"
    and dur: "0 \<le> info_duration t"
  shows "\<forall>(n, p) \<in> set (checkpoints (fst (snd (transcribe_progressive cfg w req sv)))).
           0 < n \<and> n \<le> length (segs_gen t) \<and>
           p = \<lfloor>min 95 (fl (fl (offset (seg_to_dict (segs_gen t ! (n - 1))) /
                                   (if info_duration t = 0 then 600 else info_duration t)) * 100))\<rfloor>"
proof (clarify)
  fix n p
  assume mem: "(n, p) \<in> set (checkpoints (fst (snd (transcribe_progressive cfg w req sv))))"
  then have "checkpoints (fst (snd (transcribe_progressive cfg w req sv))) \<noteq> []" by auto
  with progressive_checkpoints [of cfg w req sv] wh
  have eq: "checkpoints (fst (snd (transcribe_progressive cfg w req sv))) =
      checkpoints (sent (flush_loop cfg (urlopen_ok w) req (estimated_duration t) (segs_gen t)
                           (fresh (stage_report cfg req))))"
    by auto
  from mem checkpoints_fresh_loop [of cfg "urlopen_ok w" req "estimated_duration t" "segs_gen t" req]
  have ok: "ckpt_ok (estimated_duration t) (map seg_to_dict (segs_gen t)) (n, p)"
    unfolding eq by blast
  then have n: "0 < n" "n \<le> length (segs_gen t)"
    and p: "p = pct (estimated_duration t) (offset (map seg_to_dict (segs_gen t) ! (n - 1)))"
    by (simp_all add: ckpt_ok_def)
  from n have lt: "n - 1 < length (segs_gen t)" by simp
  then have "segs_gen t ! (n - 1) \<in> set (segs_gen t)" by simp
  with nonneg have "0 \<le> s_start (segs_gen t ! (n - 1))" by blast
  then have off: "0 \<le> offset (seg_to_dict (segs_gen t ! (n - 1)))" by (rule offset_nonneg)
  have "p = pct (estimated_duration t) (offset (seg_to_dict (segs_gen t ! (n - 1))))"
    using p lt by simp
  also have "\<dots> = \<lfloor>min 95 (fl (fl (offset (seg_to_dict (segs_gen t ! (n - 1))) / estimated_duration t) * 100))\<rfloor>"
    using estimated_duration_pos [OF dur] off by (rule pct_floor)
  finally have "p = \<lfloor>min 95 (fl (fl (offset (seg_to_dict (segs_gen t ! (n - 1))) /
                                   (if info_duration t = 0 then 600 else info_duration t)) * 100))\<rfloor>"
    by (simp only: estimated_duration_def)
  with n show "0 < n \<and> n \<le> length (segs_gen t) \<and>
           p = \<lfloor>min 95 (fl (fl (offset (seg_to_dict (segs_gen t ! (n - 1))) /
                                   (if info_duration t = 0 then 600 else info_duration t)) * 100))\<rfloor>"
    by simp
qed

text \<open>
  Claim C7. No progress report of a job exceeds 95; and when the segments of the stream
  start in non-decreasing order (ties allowed), the percentages reported at successive
  checkpoints never decrease.
\<close>

theorem progress_monotone_capped:
  "(\<forall>p \<in> set (map snd (checkpoints (fst (snd (transcribe_progressive cfg w req sv))))). p \<le> 95) \<and>
   (\<forall>t. whisper w = Inr t \<and> sorted (map s_start (segs_gen t)) \<and> 0 \<le> info_duration t \<longrightarrow>
        sorted (map snd (checkpoints (fst (snd (transcribe_progressive cfg w req sv))))))"
proof (intro conjI allI impI ballI)
  fix p
  assume "p \<in> set (map snd (checkpoints (fst (snd (transcribe_progressive cfg w req sv)))))"
  then obtain n where mem: "(n, p) \<in> set (checkpoints (fst (snd (transcribe_progressive cfg w req sv))))"
    by auto
  then have "checkpoints (fst (snd (transcribe_progressive cfg w req sv))) \<noteq> []" by auto
  with progressive_checkpoints [of cfg w req sv]
  obtain t where eq: "checkpoints (fst (snd (transcribe_progressive cfg w req sv))) =
      checkpoints (sent (flush_loop cfg (urlopen_ok w) req (estimated_duration t) (segs_gen t)
                           (fresh (stage_report cfg req))))"
    by auto
  from mem checkpoints_fresh_loop [of cfg "urlopen_ok w" req "estimated_duration t" "segs_gen t" req]
  have "ckpt_ok (estimated_duration t) (map seg_to_dict (segs_gen t)) (n, p)"
    unfolding eq by blast
  then show "p \<le> 95" by (simp add: ckpt_ok_def pct_def)
next
  fix t
  assume a: "whisper w = Inr t \<and> sorted (map s_start (segs_gen t)) \<and> 0 \<le> info_duration t"
  then have wh: "whisper w = Inr t" and srt: "sorted (map s_start (segs_gen t))"
    and est: "0 < estimated_duration t"
    by (simp_all add: estimated_duration_pos)
  have init: "checkpoints (sent (fresh (stage_report cfg req) :: flush_state)) = []"
    by (simp add: fresh_def checkpoints_stage_report)
  have "sorted (map snd (checkpoints (sent (flush_loop cfg (urlopen_ok w) req (estimated_duration t)
            (segs_gen t) (fresh (stage_report cfg req))))))"
    by (rule sorted_loop [OF est srt]) (simp_all add: init)
  with progressive_checkpoints [of cfg w req sv] wh
  show "sorted (map snd (checkpoints (fst (snd (transcribe_progressive cfg w req sv)))))"
    by auto
qed

section \<open>Two jobs traced through their checkpoints\<close>

lemma flush_loop_quiet:
  "length (segments st) + length ss < 20 + last_flush_count st \<Longrightarrow>
   flush_loop cfg ok req est ss st = st\<lparr>segments := segments st @ map seg_to_dict ss\<rparr>"
proof (induction ss arbitrary: st)
  case Nil
  show ?case by simp
next
  case (Cons s ss)
  from Cons.prems have q: "\<not> threshold st"
    by (simp add: threshold_def flush_interval_def)
  from Cons.prems have "length (segments (st\<lparr>segments := segments st @ [seg_to_dict s]\<rparr>)) + length ss
      < 20 + last_flush_count (st\<lparr>segments := segments st @ [seg_to_dict s]\<rparr>)"
    by simp
  from Cons.IH [OF this] show ?case
    by (simp add: step_quiet [OF q])
qed

lemma flush_after_19:
  assumes cfg: "configured cfg" and ok: "\<And>i. ok i"
    and len: "length ss = 19" and sync: "last_flush_count st = length (segments st)"
  shows "checkpoints (sent (flush_loop cfg ok req est (ss @ [s]) st)) =
           checkpoints (sent st) @ [(length (segments st) + 20, pct est (offset (seg_to_dict s)))] \<and>
         segments (flush_loop cfg ok req est (ss @ [s]) st) =
           segments st @ map seg_to_dict (ss @ [s]) \<and>
         last_flush_count (flush_loop cfg ok req est (ss @ [s]) st) = length (segments st) + 20"
proof -
  define st' where "st' = st\<lparr>segments := segments st @ map seg_to_dict ss\<rparr>"
  have q: "flush_loop cfg ok req est ss st = st'"
    unfolding st'_def by (rule flush_loop_quiet) (simp add: len sync)
  have th: "threshold st'"
    by (simp add: threshold_def flush_interval_def st'_def len sync)
  have "flush_loop cfg ok req est (ss @ [s]) st = append_and_flush cfg ok req est s st'"
    by (simp only: flush_loop_snoc q)
  also note step_ok [where req = req and est = est and s = s, OF cfg th ok]
  finally have r: "flush_loop cfg ok req est (ss @ [s]) st =
     \<lparr>segments = segments st' @ [seg_to_dict s],
      last_flush_count = length (segments st') + 1,
      sent = sent st' @
        [Upsert Periodic (video_id req) (segments st' @ [seg_to_dict s])
           (py_round (fl (offset (seg_to_dict s) + duration (seg_to_dict s))) 1) True,
         Heartbeat (job_id req) (worker_id req) None
           (Some (min 95 (py_int (fl (fl (offset (seg_to_dict s) / est) * 100)))))
           (Some (length (segments st') + 1))]\<rparr>" .
  show ?thesis
    unfolding r by (simp add: st'_def len checkpoints_def pct_def)
qed

lemma job_runs_lecture:
  "job_runs cfg0 (studio ok lecture) req0 idle ''/tmp/whisperx-abcdefgh'' lecture"
  by (simp add: job_runs_def configured_def cfg0_def unset_def studio_def req0_def idle_def
        mkdtemp_def download_audio_def downloaded_def MAX_AUDIO_BYTES_def lecture_def)

lemma lecture_20: "segs_gen lecture = map sec [10..<29] @ [sec 29]"
proof -
  have "[10..<Suc 29] = [10..<29] @ [29]" by (rule upt_Suc_append) simp
  moreover have "(30::nat) = Suc 29" by simp
  ultimately have "[10..<30] = [10..<29] @ [29]" by (simp only:)
  then show ?thesis by (simp add: lecture_def)
qed

lemma length_19: "length (map sec [0..<19]) = 19"
  by (simp only: length_map length_upt diff_zero)

lemma length_19_lecture: "length (map sec [10..<29]) = 19"
  by (simp only: length_map length_upt)

lemma nth_lecture: "segs_gen lecture ! (20 - 1) = sec 29"
proof -
  have "(map sec [10..<29] @ [sec 29]) ! length (map sec [10..<29]) = sec 29"
    by (rule nth_append_length)
  then show ?thesis by (simp only: lecture_20 length_19_lecture) simp
qed

lemma fl_29: "fl 29 = 29"
  by (subst fl_eval [where e = 4]) (simp_all add: pow2_def round_half_even_def Let_def)

lemma offset_sec_29: "offset (seg_to_dict (sec 29)) = 29"
  by (simp add: seg_to_dict_def sec_def py_round_def round_half_even_def fl_29)

text \<open>
  \<open>29.0 / 100.0\<close> is the float \<open>0.28999999999999998\<close> and that times \<open>100\<close> is the float
  \<open>28.999999999999996\<close>, which \<open>int\<close> truncates to 28.
\<close>

lemma pct_29_of_100: "pct 100 29 = 28"
proof -
  have a: "fl (29 / 100) = 5224175567749775 / 2 ^ 54"
    by (subst fl_eval [where e = "- 2"]) (simp_all add: pow2_def round_half_even_def Let_def)
  have b: "fl (5224175567749775 / 2 ^ 54 * 100) = 8162774324609023 / 2 ^ 48"
    by (subst fl_eval [where e = 4]) (simp_all add: pow2_def round_half_even_def Let_def)
  show ?thesis unfolding pct_def a b by (simp add: py_int_def)
qed

lemma estimated_duration_lecture: "estimated_duration lecture = 100"
  by (simp add: estimated_duration_def lecture_def)

lemma checkpoints_lecture:
  "checkpoints (fst (snd (transcribe_progressive cfg0 (studio all_ok lecture) req0 idle))) =
     [(20, 28)]"
proof -
  have run: "job_runs cfg0 (studio all_ok lecture) req0 idle ''/tmp/whisperx-abcdefgh'' lecture"
    by (rule job_runs_lecture)
  then have cfg: "configured cfg0" by (simp add: job_runs_def)
  have ok: "\<And>i. urlopen_ok (studio all_ok lecture) i" by (simp add: studio_def all_ok_def)
  have sync: "last_flush_count (fresh (announced req0)) = length (segments (fresh (announced req0)))"
    by (simp add: fresh_def)
  from flush_after_19 [OF cfg ok length_19_lecture sync, where req = req0
      and est = "estimated_duration lecture" and s = "sec 29"]
  have "checkpoints (sent (flush_loop cfg0 (urlopen_ok (studio all_ok lecture)) req0
          (estimated_duration lecture) (segs_gen lecture) (fresh (announced req0)))) =
        [(20, 28)]"
    by (simp add: lecture_20 estimated_duration_lecture offset_sec_29 pct_29_of_100
          fresh_def announced_def checkpoints_def)
  then show ?thesis
    by (simp add: progressive_run [OF run] checkpoints_final_flush)
qed

theorem progress_formula_witness:
  "whisper (studio all_ok lecture) = Inr lecture \<and>
   0 \<le> info_duration lecture \<and>
   (20, 28) \<in> set (checkpoints (fst (snd (transcribe_progressive cfg0
                       (studio all_ok lecture) req0 idle)))) \<and>
   (28 :: int) = \<lfloor>min 95 (fl (fl (offset (seg_to_dict (segs_gen lecture ! (20 - 1))) /
                    (if info_duration lecture = 0 then 600 else info_duration lecture)) * 100))\<rfloor>"
proof -
  have wh: "whisper (studio all_ok lecture) = Inr lecture" by (simp add: studio_def)
  have nonneg: "\<forall>s \<in> set (segs_gen lecture). 0 \<le> s_start s"
    by (auto simp: lecture_def sec_def)
  have dur: "0 \<le> info_duration lecture" by (simp add: lecture_def)
  have mem: "(20, 28) \<in> set (checkpoints (fst (snd (transcribe_progressive cfg0
                       (studio all_ok lecture) req0 idle))))"
    by (simp add: checkpoints_lecture)
  from progress_formula [OF wh nonneg dur, where cfg = cfg0 and req = req0 and sv = idle] mem wh dur
  show ?thesis by blast
qed

text \<open>
  Claim C6 as stated, with the quotient and the product taken exactly, fails: for a
  checkpoint at offset 29 of a recording of 100 seconds the formula gives 29, and the
  job reports 28.
\<close>

theorem progress_formula_counterexample:
  "checkpoints (fst (snd (transcribe_progressive cfg0 (studio all_ok lecture) req0 idle))) =
     [(20, 28)] \<and>
   offset (seg_to_dict (segs_gen lecture ! (20 - 1))) = 29 \<and>
   estimated_duration lecture = 100 \<and>
   \<lfloor>min 95 (offset (seg_to_dict (segs_gen lecture ! (20 - 1))) / estimated_duration lecture * 100)\<rfloor> =
     (29 :: int)"
proof -
  have off: "offset (seg_to_dict (segs_gen lecture ! (20 - 1))) = 29"
    by (simp only: nth_lecture offset_sec_29)
  have "\<lfloor>min 95 (29 / 100 * 100 :: real)\<rfloor> = (29 :: int)" by simp
  then have "\<lfloor>min 95 (offset (seg_to_dict (segs_gen lecture ! (20 - 1))) / estimated_duration lecture * 100)\<rfloor> =
     (29 :: int)"
    by (simp only: off estimated_duration_lecture)
  with checkpoints_lecture off estimated_duration_lecture show ?thesis by (simp only: simp_thms)
qed

lemma flush_loop_append:
  "flush_loop cfg ok req est (xs @ ys) st = flush_loop cfg ok req est ys (flush_loop cfg ok req est xs st)"
  by (induction xs arbitrary: st) simp_all

lemma speech_40:
  "segs_gen (speech 40) = (map sec [0..<19] @ [sec 19]) @ (map sec [20..<39] @ [sec 39])"
proof -
  have a: "[0..<Suc 39] = [0..<39] @ [39]" by (rule upt_Suc_append) simp
  have b: "[0..<20 + 19] = [0..<20] @ [20..<20 + 19]" by (rule upt_add_eq_append) simp
  have c: "[0..<Suc 19] = [0..<19] @ [19]" by (rule upt_Suc_append) simp
  have e1: "[0..<40] = [0..<39] @ [39]"
  proof -
    have "Suc 39 = 40" by simp
    with a show ?thesis by (simp only:)
  qed
  have e2: "[0..<39] = [0..<20] @ [20..<39]"
  proof -
    have "(20::nat) + 19 = 39" by simp
    with b show ?thesis by (simp only:)
  qed
  have e3: "[0..<20] = [0..<19] @ [19]"
  proof -
    have "Suc 19 = 20" by simp
    with c show ?thesis by (simp only:)
  qed
  have "[0..<40] = ([0..<19] @ [19]) @ ([20..<39] @ [39])"
    by (simp only: e1 e2 e3 append_assoc)
  then show ?thesis by (simp add: speech_def)
qed

lemma length_19_late: "length (map sec [20..<39]) = 19"
  by (simp only: length_map length_upt)

lemma fl_19: "fl 19 = 19"
  by (subst fl_eval [where e = 4]) (simp_all add: pow2_def round_half_even_def Let_def)

lemma fl_39: "fl 39 = 39"
  by (subst fl_eval [where e = 5]) (simp_all add: pow2_def round_half_even_def Let_def)

lemma offset_sec_19: "offset (seg_to_dict (sec 19)) = 19"
  by (simp add: seg_to_dict_def sec_def py_round_def round_half_even_def fl_19)

lemma offset_sec_39: "offset (seg_to_dict (sec 39)) = 39"
  by (simp add: seg_to_dict_def sec_def py_round_def round_half_even_def fl_39)

text \<open>
  \<open>19.0 / 40.0\<close> is the float \<open>0.47499999999999998\<close>, and that times \<open>100\<close> rounds to the
  float \<open>47.5\<close>; \<open>39.0 / 40.0\<close> times \<open>100\<close> rounds to \<open>97.5\<close>.
\<close>

lemma pct_19_of_40: "pct 40 19 = 47"
proof -
  have a: "fl (19 / 40) = 8556839292003942 / 2 ^ 54"
    by (subst fl_eval [where e = "- 2"]) (simp_all add: pow2_def round_half_even_def Let_def)
  have b: "fl (8556839292003942 / 2 ^ 54 * 100) = 6685030696878080 / 2 ^ 47"
    by (subst fl_eval [where e = 5]) (simp_all add: pow2_def round_half_even_def Let_def)
  show ?thesis unfolding pct_def a b by (simp add: py_int_def)
qed

lemma pct_39_of_40: "pct 40 39 = 95"
proof -
  have a: "fl (39 / 40) = 8782019273372467 / 2 ^ 53"
    by (subst fl_eval [where e = "- 1"]) (simp_all add: pow2_def round_half_even_def Let_def)
  have b: "fl (8782019273372467 / 2 ^ 53 * 100) = 6860952557322240 / 2 ^ 46"
    by (subst fl_eval [where e = 6]) (simp_all add: pow2_def round_half_even_def Let_def)
  show ?thesis unfolding pct_def a b by (simp add: py_int_def)
qed

lemma estimated_duration_speech_40: "estimated_duration (speech 40) = 40"
  by (simp add: estimated_duration_def speech_def)

lemma pct_of_40:
  "pct (estimated_duration (speech 40)) (offset (seg_to_dict (sec 19))) = 47"
  "pct (estimated_duration (speech 40)) (offset (seg_to_dict (sec 39))) = 95"
  by (simp_all only: estimated_duration_speech_40 offset_sec_19 offset_sec_39
        pct_19_of_40 pct_39_of_40)

lemma checkpoints_speech_40:
  "checkpoints (fst (snd (transcribe_progressive cfg0 (studio (\<lambda>i. True) (speech 40)) req0 idle))) =
     [(20, 47), (40, 95)]"
proof -
  let ?w = "studio (\<lambda>i. True) (speech 40)"
  let ?est = "estimated_duration (speech 40)"
  have run: "job_runs cfg0 ?w req0 idle ''/tmp/whisperx-abcdefgh'' (speech 40)"
    by (rule job_runs_studio)
  then have cfg: "configured cfg0" by (simp add: job_runs_def)
  have ok: "\<And>i. urlopen_ok ?w i" by (simp add: studio_def)
  define st0 :: flush_state where "st0 = fresh (announced req0)"
  define st1 where "st1 = flush_loop cfg0 (urlopen_ok ?w) req0 ?est (map sec [0..<19] @ [sec 19]) st0"
  have sync0: "last_flush_count st0 = length (segments st0)" by (simp add: st0_def fresh_def)
  have c0: "checkpoints (sent st0) = []" "length (segments st0) = 0"
    by (simp_all add: st0_def fresh_def announced_def checkpoints_def)
  from flush_after_19 [OF cfg ok length_19 sync0, where req = req0 and est = ?est and s = "sec 19"]
  have c1: "checkpoints (sent st1) = [(20, 47)]"
    and s1: "segments st1 = segments st0 @ map seg_to_dict (map sec [0..<19] @ [sec 19])"
    and l1: "last_flush_count st1 = 20"
    by (simp_all add: st1_def c0 pct_of_40)
  have len1: "length (segments st1) = 20"
    unfolding s1 by (simp add: c0 length_19 del: upt_Suc)
  have sync1: "last_flush_count st1 = length (segments st1)" by (simp only: l1 len1)
  from flush_after_19 [OF cfg ok length_19_late sync1, where req = req0 and est = ?est and s = "sec 39"]
  have "checkpoints (sent (flush_loop cfg0 (urlopen_ok ?w) req0 ?est (map sec [20..<39] @ [sec 39]) st1)) =
      [(20, 47), (40, 95)]"
    by (simp add: c1 len1 pct_of_40)
  then have "checkpoints (sent (flush_loop cfg0 (urlopen_ok ?w) req0 ?est (segs_gen (speech 40)) st0)) =
      [(20, 47), (40, 95)]"
    by (simp only: speech_40 flush_loop_append st1_def)
  then show ?thesis
    by (simp add: progressive_run [OF run] checkpoints_final_flush st0_def)
qed

lemma sorted_speech: "sorted (map s_start (segs_gen (speech n)))"
  by (auto simp: sorted_iff_nth_mono speech_def sec_def)

theorem progress_monotone_capped_witness:
  "whisper (studio (\<lambda>i. True) (speech 40)) = Inr (speech 40) \<and>
   sorted (map s_start (segs_gen (speech 40))) \<and> 0 \<le> info_duration (speech 40) \<and>
   map snd (checkpoints (fst (snd (transcribe_progressive cfg0
              (studio (\<lambda>i. True) (speech 40)) req0 idle)))) = [47, 95] \<and>
   sorted (map snd (checkpoints (fst (snd (transcribe_progressive cfg0
              (studio (\<lambda>i. True) (speech 40)) req0 idle)))))"
proof -
  have wh: "whisper (studio (\<lambda>i. True) (speech 40)) = Inr (speech 40)" by (simp add: studio_def)
  have srt: "sorted (map s_start (segs_gen (speech 40)))" by (rule sorted_speech)
  have dur: "0 \<le> info_duration (speech 40)" by (simp add: speech_def)
  have vals: "map snd (checkpoints (fst (snd (transcribe_progressive cfg0
              (studio (\<lambda>i. True) (speech 40)) req0 idle)))) = [47, 95]"
    by (simp add: checkpoints_speech_40)
  from progress_monotone_capped [of cfg0 "studio (\<lambda>i. True) (speech 40)" req0 idle] wh srt dur
  have "sorted (map snd (checkpoints (fst (snd (transcribe_progressive cfg0
              (studio (\<lambda>i. True) (speech 40)) req0 idle)))))"
    by blast
  with wh srt dur vals show ?thesis by blast
qed

end
